theory Spec2Isabelle
  imports Complex_Main "HOL-Library.AList"
begin

section \<open>Python values and errors\<close>

text \<open>
  The model follows \<^verbatim>\<open>biotech-youtube.py\<close>. Strings are character lists (ASCII text),
  dictionaries are association lists in insertion order (the iteration order of a Python
  dict), and every exception the modelled code can raise is a value of \<open>py_error\<close>.
\<close>

datatype py_error = KeyError | IndexError | AttributeError | TypeError | ValueError

text \<open>\<^verbatim>\<open>str(n)\<close> for a node number.\<close>

definition digit_char :: "nat \<Rightarrow> char" where
  "digit_char d = char_of (48 + d)"

fun str_nat :: "nat \<Rightarrow> string" where
  "str_nat n = (if n < 10 then [digit_char n] else str_nat (n div 10) @ [digit_char (n mod 10)])"

declare str_nat.simps [simp del]

text \<open>\<^verbatim>\<open>sep.join(parts)\<close>.\<close>

fun join :: "string \<Rightarrow> string list \<Rightarrow> string" where
  "join sep [] = []"
| "join sep [x] = x"
| "join sep (x # y # ys) = x @ sep @ join sep (y # ys)"

text \<open>\<^verbatim>\<open>str.lower()\<close> on ASCII text.\<close>

definition lower_char :: "char \<Rightarrow> char" where
  "lower_char c =
     (let n = (of_char c :: nat) in if 65 \<le> n \<and> n \<le> 90 then char_of (n + 32) else c)"

definition lower :: "string \<Rightarrow> string" where
  "lower s = map lower_char s"

text \<open>\<^verbatim>\<open>s.startswith(p)\<close> and \<^verbatim>\<open>needle in s\<close>.\<close>

fun startswith :: "string \<Rightarrow> string \<Rightarrow> bool" where
  "startswith s [] = True"
| "startswith [] (p # ps) = False"
| "startswith (c # cs) (p # ps) = (c = p \<and> startswith cs ps)"

fun str_in :: "string \<Rightarrow> string \<Rightarrow> bool" where
  "str_in needle [] = (needle = [])"
| "str_in needle (c # cs) = (startswith (c # cs) needle \<or> str_in needle cs)"

text \<open>
  \<^verbatim>\<open>s.replace(old, new)\<close> for a non-empty \<open>old\<close>: the occurrences are replaced from left
  to right and do not overlap. \<^verbatim>\<open>re.sub\<close> with a pattern that is a literal text does the
  same.
\<close>

fun replace_str :: "string \<Rightarrow> string \<Rightarrow> string \<Rightarrow> string" where
  "replace_str old new [] = []"
| "replace_str old new (c # cs) =
     (if old \<noteq> [] \<and> startswith (c # cs) old
      then new @ replace_str old new (drop (length old - 1) cs)
      else c # replace_str old new cs)"

text \<open>\<^verbatim>\<open>s.split(sep)\<close> for a separator of one character.\<close>

fun split_on :: "char \<Rightarrow> string \<Rightarrow> string list" where
  "split_on sep [] = [[]]"
| "split_on sep (c # cs) =
     (if c = sep then [] # split_on sep cs
      else (case split_on sep cs of [] \<Rightarrow> [[c]] | w # ws \<Rightarrow> (c # w) # ws))"

text \<open>ASCII letters and digits.\<close>

definition is_alpha :: "char \<Rightarrow> bool" where
  "is_alpha c = (let n = (of_char c :: nat) in (65 \<le> n \<and> n \<le> 90) \<or> (97 \<le> n \<and> n \<le> 122))"


text \<open>
  A fold that stops at the first error, as a loop does when its body raises.
\<close>

fun fold_err :: "('s \<Rightarrow> 'a \<Rightarrow> py_error + 's) \<Rightarrow> 'a list \<Rightarrow> 's \<Rightarrow> py_error + 's" where
  "fold_err f [] s = Inr s"
| "fold_err f (x # xs) s = (case f s x of Inl e \<Rightarrow> Inl e | Inr s' \<Rightarrow> fold_err f xs s')"

section \<open>Link canonicalization\<close>








section \<open>The graph creator\<close>

text \<open>
  Functions of Python's standard library that the graph creator calls, as parameters:
  \<^item> \<open>re_search pat text\<close> is \<^verbatim>\<open>re.compile(pat).search(text)\<close>, giving \<^verbatim>\<open>group(1)\<close> of the
    match or \<open>None\<close>;
  \<^item> \<open>wrap text width\<close> is \<^verbatim>\<open>textwrap.wrap(text, width)\<close>;
  \<^item> \<open>quote\<close> is \<^verbatim>\<open>urllib.parse.quote\<close>;
  \<^item> \<open>set_list xs\<close> is \<^verbatim>\<open>list(set(xs))\<close>, whose order Python leaves open.
\<close>

record library =
  re_search :: "string \<Rightarrow> string \<Rightarrow> string option"
  wrap :: "string \<Rightarrow> nat \<Rightarrow> string list"
  quote :: "string \<Rightarrow> string"
  set_list :: "nat list \<Rightarrow> nat list"

text \<open>The module-level settings.\<close>

record settings =
  SPECIAL_USER_STYLING :: "(string \<times> string \<times> string) list"
  WEBSITES_TO_CLUSTERS :: "(string \<times> string) list"
  MAX_NODE_LINE_LENGTH :: nat
  MAX_NODES_IN_COLUMN :: int
  BASE_EDGE_WIDTH :: int
  MINIMIZE_EDGE_NUMBER :: bool

text \<open>
  An entry of \<^verbatim>\<open>GraphCreator.connections\<close> is
  \<^verbatim>\<open>(source_info, target_info, author, origin)\<close>, where an info is a link with its
  optional short domain and \<open>author\<close> is the hash of the attributed commenter or \<^verbatim>\<open>None\<close>.
\<close>

type_synonym link_info = "string \<times> string option"
type_synonym raw_connection = "link_info \<times> link_info \<times> string option \<times> string option"

record graph_creator =
  connections :: "raw_connection list"
  node_codes :: "(string \<times> nat) list"
  current_node_num :: nat
  cluster_map :: "(string \<times> string) list option"
  domains_to_clusters :: "(string \<times> string) list option"
  starting_cluster :: "string option"
  website_name_re :: "string option"
  GRAPH_TEMPLATE :: string

text \<open>
  \<^verbatim>\<open>DEFAULT_GRAPH_PARAMS\<close>: the graph-level attribute defaults that \<^verbatim>\<open>__init__\<close> writes
  as \<^verbatim>\<open>edge [...]\<close>, \<^verbatim>\<open>node [...]\<close> and \<^verbatim>\<open>graph [...]\<close>; \<open>base\<close> is \<^verbatim>\<open>BASE_EDGE_WIDTH\<close>.
\<close>

definition DEFAULT_GRAPH_PARAMS :: "int \<Rightarrow> (string \<times> (string \<times> string) list) list" where
  "DEFAULT_GRAPH_PARAMS base =
     [(''edge'', [(''color'', ''#8caff3''), (''penwidth'', str_nat (nat base))]),
      (''node'', [(''color'', ''#4bc9c8''), (''fontcolor'', ''#dddddd'')]),
      (''graph'', [(''fontname'', ''Helvetica''), (''bgcolor'', ''#252525''),
                   (''ranksep'', ''2''), (''nodesep'', ''1.2''), (''rankdir'', ''LR''),
                   (''splines'', ''line''), (''newrank'', ''true''), (''overlap'', ''prism'')])]"

definition HEAD :: string where
  "HEAD = join [CHR 0x0A]
     [''// Made using a script from ciemnastrona.com.pl.'',
      ''// You can modify the graph by making changes to this file,'',
      ''// then launching the console in the same folder and typing:'',
      [],
      ''// dot -T svg graph.gv -o graph.svg'',
      [],
      ''// (dot must be installed on your computer)'']"

text \<open>\<^verbatim>\<open>_prepare_cluster_map\<close>: every alias of a key is mapped to the whole key.\<close>

definition prepare_cluster_map :: "(string \<times> string) list \<Rightarrow> (string \<times> string) list" where
  "prepare_cluster_map cmap =
     foldl (\<lambda>domain_to_cluster_map label.
              foldl (\<lambda>m name_var. AList.update name_var label m)
                    domain_to_cluster_map (split_on CHR ''|'' label))
           [] (map fst cmap)"

text \<open>
  \<^verbatim>\<open>__init__\<close>. A cluster map that is \<^verbatim>\<open>None\<close> or empty leaves \<^verbatim>\<open>cluster_map\<close>,
  \<^verbatim>\<open>domains_to_clusters\<close> and \<^verbatim>\<open>website_name_re\<close> at \<^verbatim>\<open>None\<close>. The pattern is assumed to
  compile.
\<close>

definition init_creator ::
  "int \<Rightarrow> (string \<times> string) list option \<Rightarrow> string option \<Rightarrow> graph_creator" where
  "init_creator base cmap starting =
     (let top_level_attributes =
            join [CHR 0x0A]
              (map (\<lambda>(category, params).
                      ''  '' @ category @ '' [''
                        @ join '', '' (map (\<lambda>(k, v). k @ ''='' @ [CHR 0x22] @ v @ [CHR 0x22]) params)
                        @ ''];'')
                   (DEFAULT_GRAPH_PARAMS base));
          template = HEAD @ [CHR 0x0A] @ ''digraph Connections {'' @ [CHR 0x0A, CHR 0x0A]
                     @ top_level_attributes @ [CHR 0x0A, CHR 0x0A]
                     @ ''@@NODES@@'' @ [CHR 0x0A, CHR 0x0A]
                     @ ''@@CLUSTERS@@'' @ [CHR 0x0A, CHR 0x0A]
                     @ ''@@CONNS@@'' @ [CHR 0x0A] @ ''}'';
          fresh = \<lparr>connections = [], node_codes = [], current_node_num = 1,
                   cluster_map = None, domains_to_clusters = None,
                   starting_cluster = (case starting of
                                         Some s \<Rightarrow> if s \<noteq> [] then Some s else None
                                       | None \<Rightarrow> None),
                   website_name_re = None, GRAPH_TEMPLATE = template\<rparr>
      in case cmap of
           None \<Rightarrow> fresh
         | Some m \<Rightarrow>
             if m = [] then fresh
             else fresh\<lparr>cluster_map := Some m,
                        domains_to_clusters := Some (prepare_cluster_map m),
                        website_name_re := Some (''('' @ join ''|'' (map fst m) @ '')'')\<rparr>)"

text \<open>
  The style lookup of \<^verbatim>\<open>_format_node\<close>: the matched alias is looked up in
  \<^verbatim>\<open>domains_to_clusters\<close> and its key in \<^verbatim>\<open>WEBSITES_TO_CLUSTERS\<close>.
\<close>

definition style_info ::
  "library \<Rightarrow> settings \<Rightarrow> graph_creator \<Rightarrow> string \<Rightarrow> py_error + string" where
  "style_info lib cfg gc lowtext =
     (case website_name_re gc of
        None \<Rightarrow> Inl AttributeError
      | Some pat \<Rightarrow>
          (case re_search lib pat lowtext of
             None \<Rightarrow> Inr []
           | Some g \<Rightarrow>
               (case domains_to_clusters gc of
                  None \<Rightarrow> Inl TypeError
                | Some d2c \<Rightarrow>
                    (case map_of d2c g of
                       None \<Rightarrow> Inl KeyError
                     | Some fullname \<Rightarrow>
                         (case map_of (WEBSITES_TO_CLUSTERS cfg) fullname of
                            None \<Rightarrow> Inl KeyError
                          | Some styleinfo \<Rightarrow> Inr ('',style=filled,'' @ styleinfo))))))"

text \<open>
  \<^verbatim>\<open>_format_node\<close>. The key of a node is its display text with line breaks written as
  backslash and \<^verbatim>\<open>n\<close>. A known key keeps its number, a new key takes the current counter;
  the counter is incremented on every call.
\<close>

definition node_key :: "string \<Rightarrow> string" where
  "node_key nodetext = replace_str [CHR 0x0A] [CHR 0x5C, CHR ''n''] nodetext"

definition format_node ::
  "library \<Rightarrow> settings \<Rightarrow> graph_creator \<Rightarrow> string
     \<Rightarrow> py_error + ((nat \<times> string) \<times> graph_creator)" where
  "format_node lib cfg gc nodetext0 =
     (let nodetext = node_key nodetext0;
          node_num = (case map_of (node_codes gc) nodetext of
                        Some n \<Rightarrow> n
                      | None \<Rightarrow> current_node_num gc);
          oneline_text = replace_str [CHR 0x5C, CHR ''n''] [] nodetext;
          lowtext = lower oneline_text
      in case style_info lib cfg gc lowtext of
           Inl e \<Rightarrow> Inl e
         | Inr styleinfo \<Rightarrow>
             (let url_to_source =
                    (if CHR ''/'' \<in> set lowtext
                     then (let url = quote lib lowtext;
                               url = (if startswith url ''http'' then url else ''https://'' @ url)
                           in '', href='' @ [CHR 0x22] @ url @ [CHR 0x22])
                     else []);
                  graphviz_node =
                    str_nat node_num @ '' [label='' @ [CHR 0x22] @ nodetext @ [CHR 0x22]
                      @ '', tooltip='' @ [CHR 0x22] @ oneline_text @ [CHR 0x22] @ '' ''
                      @ url_to_source @ styleinfo @ '']''
              in Inr ((node_num, graphviz_node),
                      gc\<lparr>current_node_num := current_node_num gc + 1,
                         node_codes := AList.update nodetext node_num (node_codes gc)\<rparr>)))"

definition format_link_for_display :: "library \<Rightarrow> settings \<Rightarrow> string \<Rightarrow> string" where
  "format_link_for_display lib cfg link =
     join [CHR 0x0A] (wrap lib link (MAX_NODE_LINE_LENGTH cfg))"

text \<open>\<^verbatim>\<open>_escape_special_chars\<close>: \<^verbatim>\<open>re.sub('[^A-Za-z ]+', '', text)\<close>.\<close>

definition escape_special_chars :: "string \<Rightarrow> string" where
  "escape_special_chars text = filter (\<lambda>c. is_alpha c \<or> c = CHR '' '') text"

text \<open>
  \<^verbatim>\<open>try: clusters[name].append(x)  except KeyError: clusters[name] = [x]\<close>.
\<close>

fun append_to :: "string \<Rightarrow> nat \<Rightarrow> (string \<times> nat list) list \<Rightarrow> (string \<times> nat list) list" where
  "append_to name x [] = [(name, [x])]"
| "append_to name x ((k, xs) # rest) =
     (if k = name then (k, xs @ [x]) # rest else (k, xs) # append_to name x rest)"

text \<open>
  The cluster mapping of \<^verbatim>\<open>_make_graph_body\<close> for one endpoint \<open>(s, slabel)\<close>: the loop
  over all aliases (it has no \<^verbatim>\<open>break\<close>), then the bucket of the nodes in no cluster.
\<close>

definition map_to_clusters ::
  "string list \<Rightarrow> string \<Rightarrow> nat \<Rightarrow> (string \<times> nat list) list \<times> nat set
     \<Rightarrow> (string \<times> nat list) list \<times> nat set" where
  "map_to_clusters aliases s slabel st =
     (let text = replace_str [CHR 0x0A] [] (lower s) in
      case foldl (\<lambda>(clusters, clusterized_nodes) clustname.
                    if str_in clustname text
                    then (append_to (escape_special_chars clustname) slabel clusters,
                          insert slabel clusterized_nodes)
                    else (clusters, clusterized_nodes))
                 st aliases of
        (clusters, clusterized_nodes) \<Rightarrow>
          if slabel \<in> clusterized_nodes then (clusters, clusterized_nodes)
          else (append_to ''nongrouped'' slabel clusters, clusterized_nodes))"

text \<open>The local variables of \<^verbatim>\<open>_make_graph_body\<close>, with the creator it updates.\<close>

record body_state =
  creator :: graph_creator
  node_map :: "(nat \<times> string) list"
  url_map :: "(nat \<times> string) list"
  resolved :: "(nat \<times> nat \<times> string) list"
  clusters :: "(string \<times> nat list) list"
  clusterized_nodes :: "nat set"

text \<open>
  \<^verbatim>\<open>if author: _, edgecolor = SPECIAL_USER_STYLING[author]  else: edgecolor = ''\<close>.
\<close>

definition edge_color :: "settings \<Rightarrow> string option \<Rightarrow> py_error + string" where
  "edge_color cfg author =
     (case author of
        None \<Rightarrow> Inr []
      | Some a \<Rightarrow>
          if a = [] then Inr []
          else (case map_of (SPECIAL_USER_STYLING cfg) a of
                  None \<Rightarrow> Inl KeyError
                | Some (alias, edgecolor) \<Rightarrow> Inr edgecolor))"

definition body_step ::
  "library \<Rightarrow> settings \<Rightarrow> body_state \<Rightarrow> raw_connection \<Rightarrow> py_error + body_state" where
  "body_step lib cfg st conn =
     (case conn of (source_info, target_info, author, origin) \<Rightarrow>
        (let site1 = format_link_for_display lib cfg (fst source_info);
             site2 = format_link_for_display lib cfg (fst target_info)
         in case format_node lib cfg (creator st) site1 of
              Inl e \<Rightarrow> Inl e
            | Inr ((n1, new_node1), gc1) \<Rightarrow>
                (case format_node lib cfg gc1 site2 of
                   Inl e \<Rightarrow> Inl e
                 | Inr ((n2, new_node2), gc2) \<Rightarrow>
                     (let nm1 = (if new_node1 \<noteq> [] then AList.update n1 new_node1 (node_map st)
                                 else node_map st);
                          nm2 = (if new_node2 \<noteq> [] then AList.update n2 new_node2 nm1 else nm1);
                          um = AList.update n2 (fst target_info)
                                 (AList.update n1 (fst source_info) (url_map st))
                      in case edge_color cfg author of
                           Inl e \<Rightarrow> Inl e
                         | Inr edgecolor \<Rightarrow>
                             (case domains_to_clusters gc2 of
                                None \<Rightarrow> Inl AttributeError
                              | Some d2c \<Rightarrow>
                                  (case map_to_clusters (map fst d2c) site2 n2
                                          (map_to_clusters (map fst d2c) site1 n1
                                             (clusters st, clusterized_nodes st)) of
                                     (cl, cz) \<Rightarrow>
                                       Inr \<lparr>creator = gc2, node_map = nm2, url_map = um,
                                            resolved = resolved st @ [(n1, n2, edgecolor)],
                                            clusters = cl, clusterized_nodes = cz\<rparr>))))))"

definition make_graph_body :: "library \<Rightarrow> settings \<Rightarrow> graph_creator \<Rightarrow> py_error + body_state" where
  "make_graph_body lib cfg gc =
     fold_err (body_step lib cfg) (connections gc)
       \<lparr>creator = gc, node_map = [], url_map = [], resolved = [], clusters = [],
        clusterized_nodes = {}\<rparr>"

text \<open>
  What a run of \<^verbatim>\<open>_make_graph_body\<close> shows of its node numbering: the display labels it
  passes to \<^verbatim>\<open>_format_node\<close>, in call order (source, then target, of every connection),
  and the numbers it received, read off the resolved connections in the same order.
  \<open>first_index xs x\<close> is the position at which \<open>x\<close> first occurs in \<open>xs\<close>.
\<close>

definition formatted_labels :: "library \<Rightarrow> settings \<Rightarrow> raw_connection list \<Rightarrow> string list" where
  "formatted_labels lib cfg conns =
     concat (map (\<lambda>(source_info, target_info, author, origin).
                    [format_link_for_display lib cfg (fst source_info),
                     format_link_for_display lib cfg (fst target_info)]) conns)"

definition returned_numbers :: "(nat \<times> nat \<times> string) list \<Rightarrow> nat list" where
  "returned_numbers conns = concat (map (\<lambda>(n1, n2, c). [n1, n2]) conns)"

definition first_index :: "'a list \<Rightarrow> 'a \<Rightarrow> nat" where
  "first_index xs x = length (takeWhile (\<lambda>y. y \<noteq> x) xs)"

text \<open>\<open>in_bucket cl name n\<close>: the bucket \<open>name\<close> of the cluster dictionary holds node \<open>n\<close>.\<close>

definition in_bucket :: "(string \<times> nat list) list \<Rightarrow> string \<Rightarrow> nat \<Rightarrow> bool" where
  "in_bucket cl name n = (case map_of cl name of Some ns \<Rightarrow> n \<in> set ns | None \<Rightarrow> False)"

text \<open>
  The bucket invariant of \<^verbatim>\<open>_make_graph_body\<close>, for the labels \<open>L\<close> formatted so far and the
  numbers \<open>R\<close> returned for them.
\<close>

definition bucket_inv ::
  "string list \<Rightarrow> string list \<Rightarrow> nat list \<Rightarrow> (string \<times> nat list) list \<Rightarrow> nat set \<Rightarrow> bool" where
  "bucket_inv aliases L R cl cz =
     (length R = length L
      \<and> (\<forall>(s, n) \<in> set (zip L R). \<forall>a \<in> set aliases.
            str_in a (replace_str [CHR 0x0A] [] (lower s))
              \<longrightarrow> in_bucket cl (escape_special_chars a) n)
      \<and> (\<forall>n \<in> set R. in_bucket cl ''nongrouped'' n \<or> n \<in> cz)
      \<and> (\<forall>m \<in> cz. \<exists>a \<in> set aliases. in_bucket cl (escape_special_chars a) m)
      \<and> (\<forall>name m. in_bucket cl name m \<longrightarrow> m \<in> set R)
      \<and> distinct (map fst cl))"

text \<open>
  The placement invariant: a bucket member is the number of a label that contains an alias
  with the bucket's name, or, in the ungrouped bucket, of a label that contains no alias;
  a clusterized node is the number of a label that contains an alias; and a label without
  alias whose node is not clusterized has its node in the ungrouped bucket.
\<close>

definition placement_inv ::
  "string list \<Rightarrow> string list \<Rightarrow> nat list \<Rightarrow> (string \<times> nat list) list \<Rightarrow> nat set \<Rightarrow> bool" where
  "placement_inv aliases L R cl cz =
     (length R = length L
      \<and> (\<forall>name m. in_bucket cl name m \<longrightarrow>
            (\<exists>s. (s, m) \<in> set (zip L R)
               \<and> ((\<exists>a \<in> set aliases. str_in a (replace_str [CHR 0x0A] [] (lower s))
                                        \<and> name = escape_special_chars a)
                    \<or> (name = ''nongrouped''
                        \<and> (\<forall>a \<in> set aliases. \<not> str_in a (replace_str [CHR 0x0A] [] (lower s)))))))
      \<and> (\<forall>m \<in> cz. \<exists>s. (s, m) \<in> set (zip L R)
               \<and> (\<exists>a \<in> set aliases. str_in a (replace_str [CHR 0x0A] [] (lower s))))
      \<and> (\<forall>s m. (s, m) \<in> set (zip L R)
               \<and> (\<forall>a \<in> set aliases. \<not> str_in a (replace_str [CHR 0x0A] [] (lower s)))
               \<and> m \<notin> cz
             \<longrightarrow> in_bucket cl ''nongrouped'' m))"

section \<open>Layout: columns of bounded height\<close>

text \<open>
  A grid cell is a node number or the blank placeholder \<^verbatim>\<open>''\<close> that pads the last column.
\<close>

datatype cell = Node nat | Blank

fun str_cell :: "cell \<Rightarrow> string" where
  "str_cell (Node n) = str_nat n"
| "str_cell Blank = []"

text \<open>
  The first loop of \<^verbatim>\<open>place_nodes_in_grid\<close>: a node of the starting cluster goes to the
  starting column when it has an outbound edge and to the left column otherwise; every
  other node goes to \<^verbatim>\<open>nodes\<close>. The result is \<^verbatim>\<open>(nodes, starting_column, leftside_column)\<close>.
\<close>

definition split_columns ::
  "string option \<Rightarrow> (nat \<times> string) list \<Rightarrow> (nat \<times> nat \<times> string) list
     \<Rightarrow> nat list \<times> nat list \<times> nat list" where
  "split_columns starting nodes_and_clusters conns =
     (let nodes_with_outbound_edges = set (map fst conns) in
      (map fst (filter (\<lambda>(node, cluster). Some cluster \<noteq> starting) nodes_and_clusters),
       map fst (filter (\<lambda>(node, cluster). Some cluster = starting
                          \<and> node \<in> nodes_with_outbound_edges) nodes_and_clusters),
       map fst (filter (\<lambda>(node, cluster). Some cluster = starting
                          \<and> node \<notin> nodes_with_outbound_edges) nodes_and_clusters)))"

text \<open>
  The grouping loop, with its three variables \<^verbatim>\<open>node_groups\<close>, \<^verbatim>\<open>buffer\<close> and \<^verbatim>\<open>i\<close>;
  \<open>maxn\<close> is \<^verbatim>\<open>MAX_NODES_IN_COLUMN\<close>.
\<close>

fun group_loop ::
  "int \<Rightarrow> nat list \<Rightarrow> nat list list \<Rightarrow> nat list \<Rightarrow> int \<Rightarrow> nat list list \<times> nat list \<times> int" where
  "group_loop maxn [] node_groups buffer i = (node_groups, buffer, i)"
| "group_loop maxn (n # ns) node_groups buffer i =
     (if i = maxn - 1 then group_loop maxn ns (node_groups @ [buffer @ [n]]) [] 0
      else group_loop maxn ns node_groups (buffer @ [n]) (i + 1))"

definition make_node_groups :: "int \<Rightarrow> nat list \<Rightarrow> nat list list" where
  "make_node_groups maxn nodes =
     (case group_loop maxn nodes [] [] 0 of
        (node_groups, buffer, i) \<Rightarrow> if buffer \<noteq> [] then node_groups @ [buffer] else node_groups)"

text \<open>
  The padding step. \<^verbatim>\<open>node_groups[0]\<close> raises \<^verbatim>\<open>IndexError\<close> on an empty list;
  \<^verbatim>\<open>last_group += ['']*len_diff\<close> extends the last column in place.
\<close>

definition pad_last_group :: "nat list list \<Rightarrow> py_error + cell list list" where
  "pad_last_group node_groups =
     (case node_groups of
        [] \<Rightarrow> Inl IndexError
      | first_group # _ \<Rightarrow>
          (let last_group = last node_groups;
               len_diff = int (length first_group) - int (length last_group);
               cols = map (map Node) node_groups
           in if len_diff > 0
              then Inr (butlast cols @ [map Node last_group @ replicate (nat len_diff) Blank])
              else Inr cols))"

definition padded_columns :: "int \<Rightarrow> nat list \<Rightarrow> py_error + cell list list" where
  "padded_columns maxn nodes = pad_last_group (make_node_groups maxn nodes)"

text \<open>\<^verbatim>\<open>zip(*node_groups)\<close>: row \<open>i\<close> holds entry \<open>i\<close> of every column, up to the shortest.\<close>

definition zip_star :: "'a list list \<Rightarrow> 'a list list" where
  "zip_star cols =
     (case cols of [] \<Rightarrow> []
      | c # cs \<Rightarrow> map (\<lambda>i. map (\<lambda>col. col ! i) cols)
                     [0 ..< foldr min (map length cs) (length c)])"

definition join_columns :: "string list \<Rightarrow> string list \<Rightarrow> string \<Rightarrow> nat \<Rightarrow> string" where
  "join_columns left_col right_col dummyname dummy_num =
     (let head_rows = [dummyname @ ''[style=invis]'', ''edge[style=invis]'']
                      @ map (\<lambda>node. node @ '' -> '' @ dummyname) left_col;
          names = dummyname # map (\<lambda>i. dummyname @ str_nat i) [0 ..< dummy_num];
          chain = (if dummy_num > 1
                   then concat (map (\<lambda>i. [names ! Suc i @ ''[style=invis]'',
                                            names ! i @ '' -> '' @ names ! Suc i])
                                    [0 ..< dummy_num])
                   else []);
          dummy = (if dummy_num > 1 then last names else dummyname)
      in join [CHR 0x0A]
           (head_rows @ chain @ map (\<lambda>node. dummy @ '' -> '' @ node) right_col
              @ [''edge[style=solid]'']))"

definition place_nodes_in_grid ::
  "int \<Rightarrow> string option \<Rightarrow> (nat \<times> string) list \<Rightarrow> (nat \<times> nat \<times> string) list
     \<Rightarrow> py_error + (string \<times> bool)" where
  "place_nodes_in_grid maxn starting nodes_and_clusters conns =
     (case split_columns starting nodes_and_clusters conns of
        (nodes, starting_column, leftside_column) \<Rightarrow>
          (case padded_columns maxn nodes of
             Inl e \<Rightarrow> Inl e
           | Inr node_groups \<Rightarrow>
               (let first_group = hd node_groups;
                    graphviz_lines =
                      map (\<lambda>row. join '' -> '' (map str_cell (filter (\<lambda>n. n \<noteq> Blank) row)))
                          (zip_star node_groups);
                    grid = join [CHR 0x0A]
                             [[], ''edge[style=invis]'', [], join [CHR 0x0A] graphviz_lines,
                              [], ''edge[style=solid]'', []];
                    left_c = (if leftside_column \<noteq> []
                              then join_columns (map str_nat leftside_column)
                                     (map str_nat starting_column) ''first_dummy'' 1
                              else []);
                    main_c = (if starting_column \<noteq> []
                              then join_columns (map str_nat starting_column)
                                     (map str_cell first_group) ''dummy'' 4
                              else [])
                in Inr (join [CHR 0x0A, CHR 0x0A] [left_c, main_c, grid], False))))"

section \<open>Edges\<close>

text \<open>
  A resolved connection is \<^verbatim>\<open>(name1, name2, edgecolor)\<close>: two node numbers and the colour
  of the attributed commenter, \<^verbatim>\<open>''\<close> for an edge without attribution.
\<close>

type_synonym connection = "nat \<times> nat \<times> string"

text \<open>
  An edge statement of the output: \<^verbatim>\<open>name1 -> name2\<close> with the attributes written in its
  bracket. \<^verbatim>\<open>Penwidth\<close> holds the value of \<^verbatim>\<open>BASE_EDGE_WIDTH + edge_num*0.5\<close>.
\<close>

datatype edge_attr = Color string | Penwidth rat

record edge_stmt =
  name1 :: nat
  name2 :: nat
  attrs :: "edge_attr list"

text \<open>
  \<^verbatim>\<open>try: conn_data[data] += 1  except KeyError: conn_data[data] = 1\<close>, on a dictionary in
  insertion order.
\<close>

fun count_up :: "'a \<Rightarrow> ('a \<times> nat) list \<Rightarrow> ('a \<times> nat) list" where
  "count_up d [] = [(d, 1)]"
| "count_up d ((k, n) # rest) = (if k = d then (k, n + 1) # rest else (k, n) # count_up d rest)"

definition count_connections :: "connection list \<Rightarrow> (connection \<times> nat) list" where
  "count_connections conns = foldl (\<lambda>conn_data d. count_up d conn_data) [] conns"

text \<open>The body of the second loop of \<^verbatim>\<open>_format_edges\<close>, for one entry of \<^verbatim>\<open>conn_data\<close>.\<close>

definition collapsed_edge :: "int \<Rightarrow> connection \<times> nat \<Rightarrow> edge_stmt" where
  "collapsed_edge base entry =
     (case entry of ((n1, n2, edgecolor), edge_num) \<Rightarrow>
        \<lparr>name1 = n1, name2 = n2,
         attrs = (if edgecolor \<noteq> [] then [Color edgecolor] else [])
                 @ (if edge_num > 1 then [Penwidth (of_int base + of_nat edge_num * (1 / 2))]
                    else [])\<rparr>)"

text \<open>
  \<^verbatim>\<open>_format_edges\<close>; \<open>minimize\<close> is \<^verbatim>\<open>MINIMIZE_EDGE_NUMBER\<close>. Without minimization every
  connection becomes one statement that always carries a \<^verbatim>\<open>color\<close> attribute.
\<close>

definition format_edges :: "bool \<Rightarrow> int \<Rightarrow> connection list \<Rightarrow> edge_stmt list" where
  "format_edges minimize base conns =
     (if \<not> minimize
      then map (\<lambda>(n1, n2, c). \<lparr>name1 = n1, name2 = n2, attrs = [Color c]\<rparr>) conns
      else map (collapsed_edge base) (count_connections conns))"

text \<open>
  The text of a statement. A width is a multiple of one half, which Python prints with
  one decimal digit (for values below \<open>10\<^sup>1\<^sup>6\<close>).
\<close>

definition str_width :: "rat \<Rightarrow> string" where
  "str_width w = str_nat (nat \<lfloor>w\<rfloor>) @ (if w = of_int \<lfloor>w\<rfloor> then ''.0'' else ''.5'')"

fun str_attr :: "edge_attr \<Rightarrow> string" where
  "str_attr (Color c) = ''color='' @ [CHR 0x22] @ c @ [CHR 0x22]"
| "str_attr (Penwidth w) = ''penwidth='' @ str_width w"

definition str_edge :: "edge_stmt \<Rightarrow> string" where
  "str_edge e =
     ''  '' @ str_nat (name1 e) @ '' -> '' @ str_nat (name2 e)
       @ (if attrs e \<noteq> [] then '' ['' @ join [CHR 0x0A] (map str_attr (attrs e)) @ '']'' else [])
       @ '';''"

definition format_edges_text :: "bool \<Rightarrow> int \<Rightarrow> connection list \<Rightarrow> string list" where
  "format_edges_text minimize base conns =
     map str_edge (format_edges minimize base conns)"

section \<open>Ordering the nodes and assembling the graph\<close>

text \<open>
  The inbound counts of \<^verbatim>\<open>make_graph\<close>: a \<^verbatim>\<open>Counter\<close> of the destinations, then \<open>0\<close> for
  every node of \<^verbatim>\<open>node_map\<close> that no edge points to.
\<close>

definition inbound_counts :: "(nat \<times> string) list \<Rightarrow> connection list \<Rightarrow> (nat \<times> nat) list" where
  "inbound_counts nmap conns =
     foldl (\<lambda>conn_num n. if map_of conn_num n = None then conn_num @ [(n, 0)] else conn_num)
       (foldl (\<lambda>conn_num d. count_up d conn_num) [] (map (\<lambda>(s, d, c). d) conns))
       (map fst nmap)"

text \<open>
  \<^verbatim>\<open>_sort_by_influence\<close>: \<^verbatim>\<open>sorted(nodes, key=lambda node: conn_num[node[0]], reverse=True)\<close>.
  Python's sort is stable, also with \<^verbatim>\<open>reverse=True\<close>; a node without a count raises
  \<^verbatim>\<open>KeyError\<close>.
\<close>

definition influence :: "(nat \<times> nat) list \<Rightarrow> nat \<Rightarrow> int" where
  "influence conn_num n = (case map_of conn_num n of Some k \<Rightarrow> int k | None \<Rightarrow> 0)"

definition sort_by_influence ::
  "(nat \<times> string) list \<Rightarrow> (nat \<times> nat) list \<Rightarrow> py_error + (nat \<times> string) list" where
  "sort_by_influence nodes conn_num =
     (if list_all (\<lambda>node. map_of conn_num (fst node) \<noteq> None) nodes
      then Inr (sort_key (\<lambda>node. - influence conn_num (fst node)) nodes)
      else Inl KeyError)"

text \<open>
  \<^verbatim>\<open>reorder_nodes_by_clusters\<close>. The loop state is \<^verbatim>\<open>normal_nodes\<close>,
  \<^verbatim>\<open>nodes_from_clusters\<close> and the cluster dictionary, whose member lists the loop replaces
  by their deduplicated copies. (The parameter \<^verbatim>\<open>node_map\<close> of the source is unused.)
\<close>

definition reorder_step ::
  "library \<Rightarrow> (nat \<times> nat) list
     \<Rightarrow> (nat \<times> string) list \<times> (nat \<times> string) list \<times> (string \<times> nat list) list
     \<Rightarrow> string \<times> nat list
     \<Rightarrow> py_error + ((nat \<times> string) list \<times> (nat \<times> string) list \<times> (string \<times> nat list) list)" where
  "reorder_step lib conn_num st entry =
     (case st of (normal_nodes, nodes_from_clusters, cl) \<Rightarrow>
        (case entry of (clustname, nodes) \<Rightarrow>
           (let unique_nodes = set_list lib nodes in
            case sort_by_influence (map (\<lambda>node. (node, clustname)) unique_nodes) conn_num of
              Inl e \<Rightarrow> Inl e
            | Inr sorted_nodes \<Rightarrow>
                Inr (if clustname = ''nongrouped''
                     then (sorted_nodes, nodes_from_clusters,
                           AList.update clustname unique_nodes cl)
                     else (normal_nodes, nodes_from_clusters @ sorted_nodes,
                           AList.update clustname unique_nodes cl)))))"

text \<open>
  The entries one bucket contributes when its step succeeds: its enumerated members,
  paired with the bucket name and sorted.
\<close>

definition cluster_segment ::
  "library \<Rightarrow> (nat \<times> nat) list \<Rightarrow> string \<times> nat list \<Rightarrow> (nat \<times> string) list" where
  "cluster_segment lib conn_num entry =
     sort_key (\<lambda>node. - influence conn_num (fst node))
       (map (\<lambda>node. (node, fst entry)) (set_list lib (snd entry)))"

definition reorder_nodes_by_clusters ::
  "library \<Rightarrow> (string \<times> nat list) list \<Rightarrow> (nat \<times> nat) list
     \<Rightarrow> py_error + ((nat \<times> string) list \<times> (string \<times> nat list) list)" where
  "reorder_nodes_by_clusters lib cl conn_num =
     (case fold_err (reorder_step lib conn_num) cl ([], [], cl) of
        Inl e \<Rightarrow> Inl e
      | Inr (normal_nodes, nodes_from_clusters, cl') \<Rightarrow>
          Inr (normal_nodes @ nodes_from_clusters, cl'))"

text \<open>
  \<^verbatim>\<open>make_graph\<close>, up to the text that \<^verbatim>\<open>_save_graph_to_file\<close> writes.
\<close>

definition make_graph :: "library \<Rightarrow> settings \<Rightarrow> graph_creator \<Rightarrow> py_error + string" where
  "make_graph lib cfg gc =
     (case make_graph_body lib cfg gc of
        Inl e \<Rightarrow> Inl e
      | Inr st \<Rightarrow>
          (let conn_num = inbound_counts (node_map st) (resolved st) in
           case reorder_nodes_by_clusters lib (clusters st) conn_num of
             Inl e \<Rightarrow> Inl e
           | Inr (ordered_nodes, cl') \<Rightarrow>
               (case place_nodes_in_grid (MAX_NODES_IN_COLUMN cfg) (starting_cluster gc)
                       ordered_nodes (resolved st) of
                  Inl e \<Rightarrow> Inl e
                | Inr (grid_info, onerank) \<Rightarrow>
                    (case those (map (\<lambda>(n, c). map_of (node_map st) n) ordered_nodes) of
                       None \<Rightarrow> Inl KeyError
                     | Some infos \<Rightarrow>
                         (let node_info = join [CHR 0x0A, CHR 0x0A]
                                            [join [CHR 0x0A] infos, grid_info];
                              cluster_info = [CHR 0x0A];
                              conns_text = ''  edge[constraint=false];'' @ [CHR 0x0A, CHR 0x0A]
                                @ join [CHR 0x0A]
                                    (format_edges_text (MINIMIZE_EDGE_NUMBER cfg)
                                       (BASE_EDGE_WIDTH cfg) (resolved st))
                          in Inr (replace_str ''@@CONNS@@'' conns_text
                                   (replace_str ''@@CLUSTERS@@'' cluster_info
                                     (replace_str ''@@NODES@@'' node_info
                                        (GRAPH_TEMPLATE gc)))))))))"

section \<open>The settings of the script and a library for examples\<close>

text \<open>
  The values the script sets: the module-level defaults and the two tables of its main
  block.
\<close>

definition script_settings :: settings where
  "script_settings =
     \<lparr>SPECIAL_USER_STYLING =
        [(''98f9ede02a07db6f8dd00f2e353425e5'', ''Popeye'', ''#ff3838''),
         (''f355412e8b732753092138c24e617d18'', ''David'', ''#ffd954''),
         (''3364ba675ce232d4b03e50d00f6492fc'', ''Duke'', ''#7aebf2''),
         (''9a4da08a4dcdaba6443da1c945faf54b'', ''dsn...'', ''yellow''),
         (''7a3f555fc2bd434044328f00b53b73d5'', ''River'', ''green''),
         (''aa6aa6b289cd1a84fe455a304c2c3fac'', ''Uyop'', ''#db6ae8''),
         (''b0eadcafa7b709e6770e960d0c25fe03'', ''Peer'', ''#c44ee6'')],
      WEBSITES_TO_CLUSTERS =
        [(''geneticliteracyproject'', ''color='' @ [CHR 0x22] @ ''#8caff3'' @ [CHR 0x22] @ '',fontcolor=black''),
         (''youtube|youtu.be'', ''color=red,fontcolor=black''),
         (''polityka'', ''color=green,fontcolor=black''),
         (''risk-monger'', ''color='' @ [CHR 0x22] @ ''#eab87d'' @ [CHR 0x22] @ '',fontcolor=black''),
         (''allianceforscience'', ''color='' @ [CHR 0x22] @ ''#7de1ea'' @ [CHR 0x22] @ '',fontcolor=black''),
         (''gmoanswers'', ''color='' @ [CHR 0x22] @ ''#b94ba8'' @ [CHR 0x22] @ '',fontcolor=black''),
         (''biofortified'', ''color='' @ [CHR 0x22] @ ''#7dea7f'' @ [CHR 0x22] @ '',fontcolor=black''),
         (''monsanto.com|monsantoblog.eu'', ''color='' @ [CHR 0x22] @ ''#64045e'' @ [CHR 0x22] @ '',fontcolor=white''),
         (''academicsreview'', ''color='' @ [CHR 0x22] @ ''#41a648'' @ [CHR 0x22] @ '',fontcolor=white''),
         (''acsh'', ''color='' @ [CHR 0x22] @ ''#763752'' @ [CHR 0x22] @ '',fontcolor=white'')],
      MAX_NODE_LINE_LENGTH = 25,
      MAX_NODES_IN_COLUMN = 15,
      BASE_EDGE_WIDTH = 2,
      MINIMIZE_EDGE_NUMBER = False\<rparr>"

text \<open>
  The examples below run on short texts, for which the library functions are simple:
  \<^item> a pattern \<^verbatim>\<open>(a|b|...)\<close> of aliases without special characters matches at the leftmost
    position where an alias starts, with the first such alias;
  \<^item> \<^verbatim>\<open>wrap\<close> returns a text without blanks that fits the width as it is;
  \<^item> \<^verbatim>\<open>quote\<close> leaves letters, digits and \<^verbatim>\<open>_.-~/\<close> unchanged;
  \<^item> CPython keeps a set of up to four small integers in a table of eight slots, each
    at the slot of its value modulo 8 when these differ, and enumerates the slots in
    order: \<^verbatim>\<open>list(set([2, 8]))\<close> is \<^verbatim>\<open>[8, 2]\<close>.
\<close>

fun search_literals :: "string list \<Rightarrow> string \<Rightarrow> string option" where
  "search_literals alts [] = find (\<lambda>a. a = []) alts"
| "search_literals alts (c # cs) =
     (case find (startswith (c # cs)) alts of
        Some a \<Rightarrow> Some a
      | None \<Rightarrow> search_literals alts cs)"

definition slot_order :: "nat list \<Rightarrow> nat list" where
  "slot_order xs = sort_key (\<lambda>n. n mod 8) (remdups xs)"

definition example_library :: library where
  "example_library =
     \<lparr>re_search = (\<lambda>pat text. search_literals (split_on CHR ''|'' (butlast (tl pat))) text),
      wrap = (\<lambda>text width. if text = [] then [] else [text]),
      quote = (\<lambda>text. text),
      set_list = slot_order\<rparr>"

section \<open>Properties of link canonicalization\<close>













section \<open>Properties of the graph creator\<close>

text \<open>
  Claim C1 does not hold of the code. \<^verbatim>\<open>_prepare_cluster_map\<close> maps every alias to the
  whole key \<^verbatim>\<open>foo|bar\<close>, and the cluster mapping names the bucket after the alias that
  matched: with the configuration \<^verbatim>\<open>{"foo|bar": style}\<close>, the node labeled
  \<^verbatim>\<open>bar-site.com\<close> (number 2) is placed in a bucket \<^verbatim>\<open>bar\<close>, and no bucket \<^verbatim>\<open>foo\<close>
  exists.
\<close>

theorem alias_bucket_is_named_by_the_alias:
  "prepare_cluster_map [(''foo|bar'', ''color=red'')] = [(''foo'', ''foo|bar''), (''bar'', ''foo|bar'')]
   \<and> (case make_graph_body example_library
              (script_settings\<lparr>WEBSITES_TO_CLUSTERS := [(''foo|bar'', ''color=red'')]\<rparr>)
              ((init_creator 2 (Some [(''foo|bar'', ''color=red'')]) (Some ''youtube''))
                 \<lparr>connections :=
                    [((''page'', None), (''bar-site.com'', Some ''bar-site.com''), None,
                      Some ''page'')]\<rparr>) of
         Inl e \<Rightarrow> False
       | Inr st \<Rightarrow> resolved st = [(1, 2, [])]
                   \<and> clusters st = [(''nongrouped'', [1]), (''bar'', [2])])"
  by code_simp

lemma fold_err_append:
  "fold_err f (xs @ ys) s = (case fold_err f xs s of Inl e \<Rightarrow> Inl e | Inr s' \<Rightarrow> fold_err f ys s')"
  by (induction xs arbitrary: s) (auto split: sum.splits)

lemma style_info_error:
  "style_info lib cfg gc t = Inl e \<Longrightarrow> website_name_re gc \<noteq> None \<Longrightarrow>
   domains_to_clusters gc \<noteq> None \<Longrightarrow> e = KeyError"
  by (auto simp: style_info_def split: option.splits)

lemma format_node_error:
  "format_node lib cfg gc t = Inl e \<Longrightarrow> website_name_re gc \<noteq> None \<Longrightarrow>
   domains_to_clusters gc \<noteq> None \<Longrightarrow> e = KeyError"
  by (auto simp: format_node_def Let_def split: sum.splits dest: style_info_error)

lemma format_node_result:
  assumes "format_node lib cfg gc t = Inr ((n, txt), gc')"
  shows "n = (case map_of (node_codes gc) (node_key t) of Some k \<Rightarrow> k | None \<Rightarrow> current_node_num gc)"
    and "gc' = gc\<lparr>current_node_num := current_node_num gc + 1,
                   node_codes := AList.update (node_key t) n (node_codes gc)\<rparr>"
    and "txt \<noteq> []"
  using assms by (auto simp: format_node_def Let_def split: sum.splits)

lemma format_node_config:
  assumes "format_node lib cfg gc t = Inr (r, gc')"
  shows "website_name_re gc' = website_name_re gc"
    and "domains_to_clusters gc' = domains_to_clusters gc"
    and "starting_cluster gc' = starting_cluster gc"
  using assms by (auto simp: format_node_def Let_def split: sum.splits)

lemma edge_color_unknown:
  "a \<noteq> [] \<Longrightarrow> map_of (SPECIAL_USER_STYLING cfg) a = None \<Longrightarrow> edge_color cfg (Some a) = Inl KeyError"
  by (simp add: edge_color_def)

lemma edge_color_error: "edge_color cfg author = Inl e \<Longrightarrow> e = KeyError"
  by (auto simp: edge_color_def split: option.splits if_splits)

lemma body_step_unknown_author:
  assumes "a \<noteq> []" and "map_of (SPECIAL_USER_STYLING cfg) a = None"
  shows "\<exists>e. body_step lib cfg st (src, tgt, Some a, origin) = Inl e"
  using edge_color_unknown [OF assms]
  by (auto simp: body_step_def Let_def split: sum.splits prod.splits)

lemma body_step_error:
  assumes "body_step lib cfg st conn = Inl e"
    and "website_name_re (creator st) \<noteq> None" and "domains_to_clusters (creator st) \<noteq> None"
  shows "e = KeyError"
proof -
  obtain src tgt author origin where conn: "conn = (src, tgt, author, origin)"
    by (cases conn) auto
  let ?s1 = "format_link_for_display lib cfg (fst src)"
  let ?s2 = "format_link_for_display lib cfg (fst tgt)"
  show ?thesis
  proof (cases "format_node lib cfg (creator st) ?s1")
    case (Inl e1)
    with assms conn have "e = e1" by (simp add: body_step_def)
    with Inl assms show ?thesis by (auto dest: format_node_error)
  next
    case (Inr r1)
    obtain n1 t1 gc1 where r1: "r1 = ((n1, t1), gc1)" by (cases r1) auto
    note c1 = format_node_config [OF Inr [unfolded r1]]
    show ?thesis
    proof (cases "format_node lib cfg gc1 ?s2")
      case (Inl e2)
      with Inr r1 assms conn have "e = e2" by (simp add: body_step_def)
      with Inl assms c1 show ?thesis by (auto dest: format_node_error)
    next
      case Inr2: (Inr r2)
      obtain n2 t2 gc2 where r2: "r2 = ((n2, t2), gc2)" by (cases r2) auto
      note c2 = format_node_config [OF Inr2 [unfolded r2]]
      from c1 c2 assms obtain d2c where d2c: "domains_to_clusters gc2 = Some d2c" by auto
      show ?thesis
      proof (cases "edge_color cfg author")
        case (Inl e3)
        with Inr Inr2 r1 r2 assms conn have "e = e3" by (simp add: body_step_def Let_def)
        with Inl show ?thesis by (auto dest: edge_color_error)
      next
        case Inr3: (Inr col)
        with Inr Inr2 r1 r2 d2c assms(1) conn show ?thesis
          by (simp add: body_step_def Let_def split: prod.splits)
      qed
    qed
  qed
qed

lemma body_step_Inr:
  assumes "body_step lib cfg st (src, tgt, author, origin) = Inr st'"
  obtains n1 t1 gc1 n2 t2 col d2c
  where "format_node lib cfg (creator st) (format_link_for_display lib cfg (fst src))
           = Inr ((n1, t1), gc1)"
    and "format_node lib cfg gc1 (format_link_for_display lib cfg (fst tgt))
           = Inr ((n2, t2), creator st')"
    and "edge_color cfg author = Inr col"
    and "domains_to_clusters (creator st') = Some d2c"
    and "resolved st' = resolved st @ [(n1, n2, col)]"
    and "(clusters st', clusterized_nodes st')
           = map_to_clusters (map fst d2c) (format_link_for_display lib cfg (fst tgt)) n2
               (map_to_clusters (map fst d2c) (format_link_for_display lib cfg (fst src)) n1
                  (clusters st, clusterized_nodes st))"
    and "node_map st' = AList.update n2 t2 (AList.update n1 t1 (node_map st))"
proof -
  let ?s1 = "format_link_for_display lib cfg (fst src)"
  let ?s2 = "format_link_for_display lib cfg (fst tgt)"
  from assms obtain r1 where r1: "format_node lib cfg (creator st) ?s1 = Inr r1"
    by (cases "format_node lib cfg (creator st) ?s1") (simp_all add: body_step_def)
  obtain n1 t1 gc1 where r1': "r1 = ((n1, t1), gc1)" by (cases r1) auto
  from assms r1 r1' obtain r2 where r2: "format_node lib cfg gc1 ?s2 = Inr r2"
    by (cases "format_node lib cfg gc1 ?s2") (simp_all add: body_step_def)
  obtain n2 t2 gc2 where r2': "r2 = ((n2, t2), gc2)" by (cases r2) auto
  from assms r1 r1' r2 r2' obtain col where col: "edge_color cfg author = Inr col"
    by (cases "edge_color cfg author") (simp_all add: body_step_def Let_def)
  from assms r1 r1' r2 r2' col obtain d2c where d2c: "domains_to_clusters gc2 = Some d2c"
    by (cases "domains_to_clusters gc2") (simp_all add: body_step_def Let_def)
  obtain cl cz where m: "map_to_clusters (map fst d2c) ?s2 n2
      (map_to_clusters (map fst d2c) ?s1 n1 (clusters st, clusterized_nodes st)) = (cl, cz)"
    by (cases "map_to_clusters (map fst d2c) ?s2 n2
      (map_to_clusters (map fst d2c) ?s1 n1 (clusters st, clusterized_nodes st))") auto
  have t: "t1 \<noteq> []" "t2 \<noteq> []"
    using format_node_result(3) [OF r1 [unfolded r1']] format_node_result(3) [OF r2 [unfolded r2']]
    by simp_all
  from assms r1 r1' r2 r2' col d2c m t
  have st': "st' = \<lparr>creator = gc2, node_map = AList.update n2 t2 (AList.update n1 t1 (node_map st)),
                    url_map = AList.update n2 (fst tgt) (AList.update n1 (fst src) (url_map st)),
                    resolved = resolved st @ [(n1, n2, col)],
                    clusters = cl, clusterized_nodes = cz\<rparr>"
    by (simp add: body_step_def Let_def)
  show thesis
  proof (rule that [of n1 t1 gc1 n2 t2 col d2c])
    show "format_node lib cfg (creator st) ?s1 = Inr ((n1, t1), gc1)" using r1 r1' by simp
    show "format_node lib cfg gc1 ?s2 = Inr ((n2, t2), creator st')" using r2 r2' st' by simp
    show "edge_color cfg author = Inr col" by (rule col)
    show "domains_to_clusters (creator st') = Some d2c" using d2c st' by simp
    show "resolved st' = resolved st @ [(n1, n2, col)]" using st' by simp
    show "(clusters st', clusterized_nodes st')
           = map_to_clusters (map fst d2c) ?s2 n2
               (map_to_clusters (map fst d2c) ?s1 n1 (clusters st, clusterized_nodes st))"
      using st' m by simp
    show "node_map st' = AList.update n2 t2 (AList.update n1 t1 (node_map st))"
      using st' by simp
  qed
qed

lemma body_step_config:
  assumes "body_step lib cfg st conn = Inr st'"
  shows "website_name_re (creator st') = website_name_re (creator st)"
    and "domains_to_clusters (creator st') = domains_to_clusters (creator st)"
    and "starting_cluster (creator st') = starting_cluster (creator st)"
proof -
  obtain src tgt author origin where conn: "conn = (src, tgt, author, origin)"
    by (cases conn) auto
  from assms [unfolded conn] obtain n1 t1 gc1 n2 t2 where
    a: "format_node lib cfg (creator st) (format_link_for_display lib cfg (fst src))
           = Inr ((n1, t1), gc1)"
    and b: "format_node lib cfg gc1 (format_link_for_display lib cfg (fst tgt))
           = Inr ((n2, t2), creator st')"
    by (rule body_step_Inr)
  from format_node_config [OF a] format_node_config [OF b]
  show "website_name_re (creator st') = website_name_re (creator st)"
    and "domains_to_clusters (creator st') = domains_to_clusters (creator st)"
    and "starting_cluster (creator st') = starting_cluster (creator st)"
    by simp_all
qed

lemma fold_body_config:
  "fold_err (body_step lib cfg) cs st = Inr st' \<Longrightarrow>
   website_name_re (creator st') = website_name_re (creator st)
   \<and> domains_to_clusters (creator st') = domains_to_clusters (creator st)"
proof (induction cs arbitrary: st)
  case Nil
  then show ?case by simp
next
  case (Cons c cs)
  then obtain s1 where s1: "body_step lib cfg st c = Inr s1" "fold_err (body_step lib cfg) cs s1 = Inr st'"
    by (auto split: sum.splits)
  from Cons.IH [OF s1(2)] body_step_config [OF s1(1)] show ?case by simp
qed

lemma fold_body_error:
  "fold_err (body_step lib cfg) cs st = Inl e \<Longrightarrow> website_name_re (creator st) \<noteq> None \<Longrightarrow>
   domains_to_clusters (creator st) \<noteq> None \<Longrightarrow> e = KeyError"
proof (induction cs arbitrary: st)
  case Nil
  then show ?case by simp
next
  case (Cons c cs)
  show ?case
  proof (cases "body_step lib cfg st c")
    case (Inl e1)
    with Cons.prems have "e = e1" by simp
    with Inl Cons.prems show ?thesis by (auto dest: body_step_error)
  next
    case (Inr s1)
    with Cons.prems have run: "fold_err (body_step lib cfg) cs s1 = Inl e" by simp
    from body_step_config [OF Inr] Cons.prems
    have "website_name_re (creator s1) \<noteq> None" "domains_to_clusters (creator s1) \<noteq> None"
      by simp_all
    with Cons.IH [OF run] show ?thesis by simp
  qed
qed

lemma fold_body_unknown_author:
  assumes "(src, tgt, Some a, origin) \<in> set cs"
    and "a \<noteq> []" and "map_of (SPECIAL_USER_STYLING cfg) a = None"
  shows "\<exists>e. fold_err (body_step lib cfg) cs st = Inl e"
proof -
  from assms(1) obtain pre post where cs: "cs = pre @ (src, tgt, Some a, origin) # post"
    by (auto simp: in_set_conv_decomp)
  show ?thesis
  proof (cases "fold_err (body_step lib cfg) pre st")
    case (Inl e)
    then show ?thesis by (simp add: cs fold_err_append)
  next
    case (Inr s1)
    from body_step_unknown_author [OF assms(2,3), of lib s1 src tgt origin]
    obtain e where "body_step lib cfg s1 (src, tgt, Some a, origin) = Inl e" by blast
    with Inr show ?thesis by (simp add: cs fold_err_append)
  qed
qed

text \<open>
  Claim C9. If some connection carries a non-empty attribution that is not a key of
  \<^verbatim>\<open>SPECIAL_USER_STYLING\<close>, then \<^verbatim>\<open>_make_graph_body\<close> raises and so does \<^verbatim>\<open>make_graph\<close>:
  no graph is produced, the edge is neither dropped nor given a default style. For a
  creator that was given a cluster map the exception is a \<^verbatim>\<open>KeyError\<close>, a lookup error
  (without a cluster map \<^verbatim>\<open>_format_node\<close> raises on the first connection already).
\<close>

theorem unknown_attribution_is_fatal:
  assumes edge: "(src, tgt, Some a, origin) \<in> set (connections gc)"
    and author: "a \<noteq> []"
    and unknown: "map_of (SPECIAL_USER_STYLING cfg) a = None"
  shows "(\<exists>e. make_graph_body lib cfg gc = Inl e \<and> make_graph lib cfg gc = Inl e)
         \<and> (website_name_re gc \<noteq> None \<and> domains_to_clusters gc \<noteq> None
              \<longrightarrow> make_graph_body lib cfg gc = Inl KeyError
                  \<and> make_graph lib cfg gc = Inl KeyError)"
proof -
  from fold_body_unknown_author [OF edge author unknown]
  obtain e where e: "make_graph_body lib cfg gc = Inl e"
    unfolding make_graph_body_def by blast
  then have g: "make_graph lib cfg gc = Inl e" by (simp add: make_graph_def)
  have "e = KeyError" if "website_name_re gc \<noteq> None" "domains_to_clusters gc \<noteq> None"
    using e that unfolding make_graph_body_def by (auto dest: fold_body_error)
  with e g show ?thesis by blast
qed

theorem unknown_attribution_is_fatal_witness:
  "make_graph_body example_library script_settings
     ((init_creator 2 (Some (WEBSITES_TO_CLUSTERS script_settings)) (Some ''youtube''))
        \<lparr>connections :=
           [((''a.com'', None), (''b.com'', Some ''b.com''), None, Some ''a''),
            ((''a.com'', None), (''c.com'', Some ''c.com''), Some ''0123'', None)]\<rparr>)
     = Inl KeyError
   \<and> make_graph example_library script_settings
     ((init_creator 2 (Some (WEBSITES_TO_CLUSTERS script_settings)) (Some ''youtube''))
        \<lparr>connections :=
           [((''a.com'', None), (''b.com'', Some ''b.com''), None, Some ''a''),
            ((''a.com'', None), (''c.com'', Some ''c.com''), Some ''0123'', None)]\<rparr>)
     = Inl KeyError"
proof -
  let ?gc = "(init_creator 2 (Some (WEBSITES_TO_CLUSTERS script_settings)) (Some ''youtube''))
        \<lparr>connections :=
           [((''a.com'', None), (''b.com'', Some ''b.com''), None, Some ''a''),
            ((''a.com'', None), (''c.com'', Some ''c.com''), Some ''0123'', None)]\<rparr>"
  have edge: "((''a.com'', None), (''c.com'', Some ''c.com''), Some ''0123'', None)
                \<in> set (connections ?gc)"
    by simp
  have author: "''0123'' \<noteq> []" by simp
  have unknown: "map_of (SPECIAL_USER_STYLING script_settings) ''0123'' = None"
    by (simp add: script_settings_def)
  have conf: "website_name_re ?gc \<noteq> None \<and> domains_to_clusters ?gc \<noteq> None"
    by (simp add: init_creator_def script_settings_def)
  from unknown_attribution_is_fatal [OF edge author unknown, of example_library] conf
  show ?thesis by blast
qed

lemma first_index_append_in: "x \<in> set xs \<Longrightarrow> first_index (xs @ ys) x = first_index xs x"
  unfolding first_index_def by (induction xs) auto

lemma first_index_append_new: "x \<notin> set xs \<Longrightarrow> first_index (xs @ x # ys) x = length xs"
  unfolding first_index_def by (induction xs) auto

lemma first_index_less: "x \<in> set xs \<Longrightarrow> first_index xs x < length xs"
  unfolding first_index_def by (induction xs) auto

lemma first_index_nth: "x \<in> set xs \<Longrightarrow> xs ! first_index xs x = x"
  unfolding first_index_def by (induction xs) auto

lemma first_index_le: "i < length xs \<Longrightarrow> first_index xs (xs ! i) \<le> i"
  unfolding first_index_def
proof (induction xs arbitrary: i)
  case Nil
  then show ?case by simp
next
  case (Cons a xs)
  then show ?case by (cases i) auto
qed

text \<open>
  The numbering invariant: the state of a fresh creator after it has formatted the keys
  \<open>seen\<close>.
\<close>

lemma format_node_numbering:
  assumes num: "current_node_num gc = Suc (length seen)"
    and codes: "\<forall>t. map_of (node_codes gc) t
                  = (if t \<in> set seen then Some (Suc (first_index seen t)) else None)"
    and run: "format_node lib cfg gc label = Inr ((n, txt), gc')"
  shows "n = Suc (first_index (seen @ [node_key label]) (node_key label))"
    and "current_node_num gc' = Suc (length (seen @ [node_key label]))"
    and "\<forall>t. map_of (node_codes gc') t
           = (if t \<in> set (seen @ [node_key label])
              then Some (Suc (first_index (seen @ [node_key label]) t)) else None)"
proof -
  let ?k = "node_key label"
  note res = format_node_result [OF run]
  show n: "n = Suc (first_index (seen @ [?k]) ?k)"
  proof (cases "?k \<in> set seen")
    case True
    with codes res(1) show ?thesis by (simp add: first_index_append_in)
  next
    case False
    with codes res(1) num show ?thesis by (simp add: first_index_append_new)
  qed
  show "current_node_num gc' = Suc (length (seen @ [?k]))"
    using res(2) num by simp
  show "\<forall>t. map_of (node_codes gc') t
           = (if t \<in> set (seen @ [?k]) then Some (Suc (first_index (seen @ [?k]) t)) else None)"
  proof
    fix t
    have upd: "map_of (node_codes gc') t = (if t = ?k then Some n else map_of (node_codes gc) t)"
      using res(2) by (simp add: update_conv')
    show "map_of (node_codes gc') t
           = (if t \<in> set (seen @ [?k]) then Some (Suc (first_index (seen @ [?k]) t)) else None)"
    proof (cases "t = ?k")
      case True
      with upd n show ?thesis by simp
    next
      case False
      with upd codes show ?thesis by (auto simp: first_index_append_in)
    qed
  qed
qed

lemma numbers_extend:
  assumes "ids = map (\<lambda>t. Suc (first_index seen t)) seen"
  shows "ids @ [Suc (first_index (seen @ [k]) k)]
           = map (\<lambda>t. Suc (first_index (seen @ [k]) t)) (seen @ [k])"
  using assms by (simp add: first_index_append_in)

lemma body_step_numbering:
  assumes num: "current_node_num (creator st) = Suc (length seen)"
    and codes: "\<forall>t. map_of (node_codes (creator st)) t
                  = (if t \<in> set seen then Some (Suc (first_index seen t)) else None)"
    and ids: "returned_numbers (resolved st) = map (\<lambda>t. Suc (first_index seen t)) seen"
    and run: "body_step lib cfg st conn = Inr st'"
  defines "seen' \<equiv> seen @ map node_key (formatted_labels lib cfg [conn])"
  shows "current_node_num (creator st') = Suc (length seen')"
    and "\<forall>t. map_of (node_codes (creator st')) t
           = (if t \<in> set seen' then Some (Suc (first_index seen' t)) else None)"
    and "returned_numbers (resolved st') = map (\<lambda>t. Suc (first_index seen' t)) seen'"
proof -
  obtain src tgt author origin where conn: "conn = (src, tgt, author, origin)"
    by (cases conn) auto
  let ?k1 = "node_key (format_link_for_display lib cfg (fst src))"
  let ?k2 = "node_key (format_link_for_display lib cfg (fst tgt))"
  have seen': "seen' = (seen @ [?k1]) @ [?k2]"
    by (simp add: seen'_def conn formatted_labels_def)
  from run [unfolded conn] obtain n1 t1 gc1 n2 t2 col where
    a: "format_node lib cfg (creator st) (format_link_for_display lib cfg (fst src))
           = Inr ((n1, t1), gc1)"
    and b: "format_node lib cfg gc1 (format_link_for_display lib cfg (fst tgt))
           = Inr ((n2, t2), creator st')"
    and r: "resolved st' = resolved st @ [(n1, n2, col)]"
    by (rule body_step_Inr)
  note s1 = format_node_numbering [OF num codes a]
  note s2 = format_node_numbering [OF s1(2) s1(3) b]
  show "current_node_num (creator st') = Suc (length seen')"
    using s2(2) seen' by simp
  show "\<forall>t. map_of (node_codes (creator st')) t
           = (if t \<in> set seen' then Some (Suc (first_index seen' t)) else None)"
    using s2(3) unfolding seen' .
  have "returned_numbers (resolved st') = (returned_numbers (resolved st) @ [n1]) @ [n2]"
    using r by (simp add: returned_numbers_def)
  also have "returned_numbers (resolved st) @ [n1]
               = map (\<lambda>t. Suc (first_index (seen @ [?k1]) t)) (seen @ [?k1])"
    unfolding s1(1) using ids by (rule numbers_extend)
  also have "\<dots> @ [n2] = map (\<lambda>t. Suc (first_index ((seen @ [?k1]) @ [?k2]) t)) ((seen @ [?k1]) @ [?k2])"
    unfolding s2(1) by (rule numbers_extend) simp
  finally show "returned_numbers (resolved st') = map (\<lambda>t. Suc (first_index seen' t)) seen'"
    unfolding seen' .
qed

lemma formatted_labels_Cons:
  "formatted_labels lib cfg (c # cs) = formatted_labels lib cfg [c] @ formatted_labels lib cfg cs"
  by (simp add: formatted_labels_def)

lemma fold_body_numbering:
  assumes "fold_err (body_step lib cfg) cs st = Inr st'"
    and "current_node_num (creator st) = Suc (length seen)"
    and "\<forall>t. map_of (node_codes (creator st)) t
           = (if t \<in> set seen then Some (Suc (first_index seen t)) else None)"
    and "returned_numbers (resolved st) = map (\<lambda>t. Suc (first_index seen t)) seen"
  shows "current_node_num (creator st')
           = Suc (length (seen @ map node_key (formatted_labels lib cfg cs)))
       \<and> (\<forall>t. map_of (node_codes (creator st')) t
           = (if t \<in> set (seen @ map node_key (formatted_labels lib cfg cs))
              then Some (Suc (first_index (seen @ map node_key (formatted_labels lib cfg cs)) t))
              else None))
       \<and> returned_numbers (resolved st')
           = map (\<lambda>t. Suc (first_index (seen @ map node_key (formatted_labels lib cfg cs)) t))
               (seen @ map node_key (formatted_labels lib cfg cs))"
  using assms
proof (induction cs arbitrary: st seen)
  case Nil
  then show ?case by (simp add: formatted_labels_def)
next
  case (Cons c cs)
  from Cons.prems(1) obtain s1 where
    s1: "body_step lib cfg st c = Inr s1" "fold_err (body_step lib cfg) cs s1 = Inr st'"
    by (auto split: sum.splits)
  note step = body_step_numbering [OF Cons.prems(2,3,4) s1(1)]
  have app: "seen @ map node_key (formatted_labels lib cfg (c # cs))
      = (seen @ map node_key (formatted_labels lib cfg [c])) @ map node_key (formatted_labels lib cfg cs)"
    by (simp add: formatted_labels_Cons [of lib cfg c cs])
  from Cons.IH [OF s1(2) step] show ?case unfolding app .
qed

lemma make_graph_body_numbering:
  assumes fresh: "node_codes gc = []" "current_node_num gc = 1"
    and run: "make_graph_body lib cfg gc = Inr st"
  shows "returned_numbers (resolved st)
           = map (\<lambda>t. Suc (first_index (map node_key (formatted_labels lib cfg (connections gc))) t))
               (map node_key (formatted_labels lib cfg (connections gc)))"
    and "\<forall>t. map_of (node_codes (creator st)) t
           = (if t \<in> set (map node_key (formatted_labels lib cfg (connections gc)))
              then Some (Suc (first_index (map node_key (formatted_labels lib cfg (connections gc))) t))
              else None)"
proof -
  let ?init = "\<lparr>creator = gc, node_map = [], url_map = [], resolved = [], clusters = [],
        clusterized_nodes = {}\<rparr>"
  have f: "fold_err (body_step lib cfg) (connections gc) ?init = Inr st"
    using run by (simp add: make_graph_body_def)
  have a: "current_node_num (creator ?init) = Suc (length ([] :: string list))"
    using fresh by simp
  have b: "\<forall>t. map_of (node_codes (creator ?init)) t
           = (if t \<in> set [] then Some (Suc (first_index [] t)) else None)"
    using fresh by simp
  have c: "returned_numbers (resolved ?init) = map (\<lambda>t. Suc (first_index [] t)) ([] :: string list)"
    by (simp add: returned_numbers_def)
  from fold_body_numbering [OF f a b c]
  show "returned_numbers (resolved st)
           = map (\<lambda>t. Suc (first_index (map node_key (formatted_labels lib cfg (connections gc))) t))
               (map node_key (formatted_labels lib cfg (connections gc)))"
    and "\<forall>t. map_of (node_codes (creator st)) t
           = (if t \<in> set (map node_key (formatted_labels lib cfg (connections gc)))
              then Some (Suc (first_index (map node_key (formatted_labels lib cfg (connections gc))) t))
              else None)"
    by simp_all
qed

lemma formatted_labels_append:
  "formatted_labels lib cfg (pre @ post)
     = formatted_labels lib cfg pre @ formatted_labels lib cfg post"
  by (simp add: formatted_labels_def)

text \<open>
  Claim C5. In a run of \<^verbatim>\<open>_make_graph_body\<close> on a fresh creator, the number returned for
  a label is one more than the position of the call that first formatted its key (the
  counter starts at 1 and every call increments it). So the same display label always gets
  the same number, different keys get different numbers, a key seen first earlier gets
  the smaller number, the first number is 1, the final \<^verbatim>\<open>_node_codes\<close> holds exactly these
  numbers, and every entry \<^verbatim>\<open>_node_codes\<close> held after a prefix of the connections is still
  there, unchanged, at the end.
\<close>

theorem node_identity_is_stable:
  assumes fresh: "node_codes gc = []" "current_node_num gc = 1"
    and run: "make_graph_body lib cfg gc = Inr st"
    and labels: "labels = formatted_labels lib cfg (connections gc)"
    and keys: "keys = map node_key labels"
    and ids: "ids = returned_numbers (resolved st)"
  shows "length ids = length labels
       \<and> (\<forall>i<length labels. ids ! i = Suc (first_index keys (keys ! i)))
       \<and> (\<forall>i<length labels. \<forall>j<length labels. labels ! i = labels ! j \<longrightarrow> ids ! i = ids ! j)
       \<and> (\<forall>i<length labels. \<forall>j<length labels. (ids ! i = ids ! j) = (keys ! i = keys ! j))
       \<and> (\<forall>i<length labels. \<forall>j<length labels.
             first_index keys (keys ! i) < first_index keys (keys ! j) \<longrightarrow> ids ! i < ids ! j)
       \<and> (labels \<noteq> [] \<longrightarrow> ids ! 0 = 1)
       \<and> (\<forall>i<length labels. map_of (node_codes (creator st)) (keys ! i) = Some (ids ! i))
       \<and> (\<forall>pre post st1. connections gc = pre @ post
             \<and> make_graph_body lib cfg (gc\<lparr>connections := pre\<rparr>) = Inr st1
             \<longrightarrow> (\<forall>t n. map_of (node_codes (creator st1)) t = Some n
                    \<longrightarrow> map_of (node_codes (creator st)) t = Some n))"
proof -
  note num = make_graph_body_numbering [OF fresh run, folded labels, folded keys, folded ids]
  have len: "length ids = length labels" "length keys = length labels"
    using num(1) keys by simp_all
  have nth: "ids ! i = Suc (first_index keys (keys ! i))" if "i < length labels" for i
    using num(1) that len by simp
  have same: "ids ! i = ids ! j" if "i < length labels" "j < length labels" "labels ! i = labels ! j"
    for i j
    using that nth keys by simp
  have inj: "(ids ! i = ids ! j) = (keys ! i = keys ! j)"
    if i: "i < length labels" and j: "j < length labels" for i j
  proof
    assume "ids ! i = ids ! j"
    with nth i j have eq: "first_index keys (keys ! i) = first_index keys (keys ! j)" by simp
    have mi: "keys ! i \<in> set keys" and mj: "keys ! j \<in> set keys"
      using i j len by simp_all
    have "keys ! i = keys ! first_index keys (keys ! i)"
      by (rule first_index_nth [OF mi, symmetric])
    also have "\<dots> = keys ! first_index keys (keys ! j)" by (simp only: eq)
    also have "\<dots> = keys ! j" by (rule first_index_nth [OF mj])
    finally show "keys ! i = keys ! j" .
  next
    assume "keys ! i = keys ! j"
    with nth i j show "ids ! i = ids ! j" by simp
  qed
  have mono: "ids ! i < ids ! j"
    if "i < length labels" "j < length labels"
      "first_index keys (keys ! i) < first_index keys (keys ! j)" for i j
    using that nth by simp
  have first: "ids ! 0 = 1" if "labels \<noteq> []"
  proof -
    from that have "0 < length keys" using len by simp
    then have "first_index keys (keys ! 0) \<le> 0" by (rule first_index_le)
    with nth [of 0] that show ?thesis by simp
  qed
  have final: "map_of (node_codes (creator st)) (keys ! i) = Some (ids ! i)"
    if "i < length labels" for i
  proof -
    from that len have "keys ! i \<in> set keys" by simp
    with num(2) nth [OF that] show ?thesis by simp
  qed
  have keep: "map_of (node_codes (creator st)) t = Some n"
    if split: "connections gc = pre @ post"
      and run1: "make_graph_body lib cfg (gc\<lparr>connections := pre\<rparr>) = Inr st1"
      and t: "map_of (node_codes (creator st1)) t = Some n" for pre post st1 t n
  proof -
    let ?kpre = "map node_key (formatted_labels lib cfg pre)"
    have fresh1: "node_codes (gc\<lparr>connections := pre\<rparr>) = []"
      "current_node_num (gc\<lparr>connections := pre\<rparr>) = 1"
      using fresh by simp_all
    from make_graph_body_numbering(2) [OF fresh1 run1]
    have codes1: "map_of (node_codes (creator st1)) t
                    = (if t \<in> set ?kpre then Some (Suc (first_index ?kpre t)) else None)"
      by simp
    with t have mem: "t \<in> set ?kpre" and n: "n = Suc (first_index ?kpre t)"
      by (auto split: if_splits)
    have k: "keys = ?kpre @ map node_key (formatted_labels lib cfg post)"
      using keys labels split by (simp add: formatted_labels_append)
    from mem have "first_index keys t = first_index ?kpre t"
      unfolding k by (rule first_index_append_in)
    moreover from mem have "t \<in> set keys" unfolding k by simp
    ultimately show ?thesis using num(2) n by simp
  qed
  from len(1) nth same inj mono first final keep show ?thesis by blast
qed

lemma init_creator_fresh:
  "node_codes (init_creator base cmap starting) = []"
  "current_node_num (init_creator base cmap starting) = 1"
  by (simp_all add: init_creator_def Let_def split: option.splits)

lemma init_creator_configured:
  "m \<noteq> [] \<Longrightarrow> website_name_re (init_creator base (Some m) starting) \<noteq> None
     \<and> domains_to_clusters (init_creator base (Some m) starting) = Some (prepare_cluster_map m)"
  by (simp add: init_creator_def Let_def)

theorem node_identity_is_stable_witness:
  "\<exists>st. make_graph_body example_library script_settings
          ((init_creator 2 (Some (WEBSITES_TO_CLUSTERS script_settings)) (Some ''youtube''))
             \<lparr>connections :=
                [((''a.com'', None), (''b.com'', Some ''b.com''), None, Some ''a''),
                 ((''a.com'', None), (''c.com'', Some ''c.com''), None, Some ''a'')]\<rparr>) = Inr st
        \<and> returned_numbers (resolved st) = [1, 2, 1, 4]
        \<and> length (returned_numbers (resolved st)) = length [''a.com'', ''b.com'', ''a.com'', ''c.com'']
        \<and> returned_numbers (resolved st) ! 0 = 1
        \<and> returned_numbers (resolved st) ! 2 = returned_numbers (resolved st) ! 0"
proof -
  let ?gc = "(init_creator 2 (Some (WEBSITES_TO_CLUSTERS script_settings)) (Some ''youtube''))
             \<lparr>connections :=
                [((''a.com'', None), (''b.com'', Some ''b.com''), None, Some ''a''),
                 ((''a.com'', None), (''c.com'', Some ''c.com''), None, Some ''a'')]\<rparr>"
  let ?labels = "[''a.com'', ''b.com'', ''a.com'', ''c.com'']"
  have "case make_graph_body example_library script_settings ?gc of
          Inl e \<Rightarrow> False | Inr st \<Rightarrow> returned_numbers (resolved st) = [1, 2, 1, 4]"
    by code_simp
  then obtain st where run: "make_graph_body example_library script_settings ?gc = Inr st"
    and res: "returned_numbers (resolved st) = [1, 2, 1, 4]"
    by (cases "make_graph_body example_library script_settings ?gc") auto
  have fresh: "node_codes ?gc = []" "current_node_num ?gc = 1"
    by (simp_all add: init_creator_fresh)
  have labels: "?labels = formatted_labels example_library script_settings (connections ?gc)"
    by (simp add: formatted_labels_def format_link_for_display_def example_library_def)
  note inst = node_identity_is_stable [OF fresh run labels refl refl]
  have "length (returned_numbers (resolved st)) = length ?labels"
    by (rule inst [THEN conjunct1])
  moreover have "returned_numbers (resolved st) ! 0 = 1"
    using inst [THEN conjunct2, THEN conjunct2, THEN conjunct2, THEN conjunct2, THEN conjunct2,
      THEN conjunct1]
    by simp
  moreover have "returned_numbers (resolved st) ! 2 = returned_numbers (resolved st) ! 0"
    using inst [THEN conjunct2, THEN conjunct2, THEN conjunct1, rule_format, of 2 0]
    by simp
  ultimately show ?thesis using run res by blast
qed

section \<open>Properties of the column layout\<close>

lemma group_loop_inv:
  "0 < m \<Longrightarrow> i = int (length buffer) \<Longrightarrow> length buffer < m \<Longrightarrow>
   group_loop (int m) ns gs buffer i = (gs', b', i') \<Longrightarrow>
   (\<exists>new. gs' = gs @ new \<and> concat new @ b' = buffer @ ns \<and> (\<forall>g \<in> set new. length g = m))
     \<and> length b' < m"
proof (induction ns arbitrary: gs buffer i)
  case Nil
  then show ?case by simp
next
  case (Cons n ns)
  show ?case
  proof (cases "i = int m - 1")
    case True
    with Cons.prems have len: "Suc (length buffer) = m" by linarith
    from True Cons.prems have run: "group_loop (int m) ns (gs @ [buffer @ [n]]) [] 0 = (gs', b', i')"
      by simp
    from Cons.IH [OF Cons.prems(1) _ _ run] Cons.prems(1)
    obtain new where new: "gs' = (gs @ [buffer @ [n]]) @ new" "concat new @ b' = [] @ ns"
      "\<forall>g \<in> set new. length g = m" and b: "length b' < m"
      by auto
    have "gs' = gs @ ((buffer @ [n]) # new)" using new(1) by simp
    moreover have "concat ((buffer @ [n]) # new) @ b' = buffer @ n # ns" using new(2) by simp
    moreover have "\<forall>g \<in> set ((buffer @ [n]) # new). length g = m" using new(3) len by simp
    ultimately show ?thesis using b by blast
  next
    case False
    with Cons.prems have len: "Suc (length buffer) < m" by linarith
    from False Cons.prems have run: "group_loop (int m) ns gs (buffer @ [n]) (i + 1) = (gs', b', i')"
      by simp
    have i: "i + 1 = int (length (buffer @ [n]))" using Cons.prems(2) by simp
    have l: "length (buffer @ [n]) < m" using len by simp
    from Cons.IH [OF Cons.prems(1) i l run] show ?thesis by simp
  qed
qed

lemma make_node_groups_shape:
  assumes "0 < maxn"
  shows "concat (make_node_groups maxn nodes) = nodes
       \<and> (\<forall>g \<in> set (butlast (make_node_groups maxn nodes)). length g = nat maxn)
       \<and> (\<forall>g \<in> set (make_node_groups maxn nodes). g \<noteq> [] \<and> length g \<le> nat maxn)"
proof -
  obtain gs b i where run: "group_loop maxn nodes [] [] 0 = (gs, b, i)"
    by (cases "group_loop maxn nodes [] [] 0") auto
  have m: "0 < nat maxn" "int (nat maxn) = maxn" using assms by simp_all
  from group_loop_inv [of "nat maxn" 0 "[]" nodes "[]" gs b i] run m
  have inv: "concat gs @ b = nodes" "\<forall>g \<in> set gs. length g = nat maxn" "length b < nat maxn"
    by auto
  show ?thesis
  proof (cases "b = []")
    case True
    then have "make_node_groups maxn nodes = gs" by (simp add: make_node_groups_def run)
    with inv True m show ?thesis by (auto dest: in_set_butlastD)
  next
    case False
    then have "make_node_groups maxn nodes = gs @ [b]" by (simp add: make_node_groups_def run)
    with inv False show ?thesis by (auto simp: butlast_append)
  qed
qed

lemma nth_of_uniform_chunks:
  "\<forall>g \<in> set (butlast gs). length g = m \<Longrightarrow> Suc k < length gs \<Longrightarrow>
   gs ! k = take m (drop (k * m) (concat gs))"
proof (induction gs arbitrary: k)
  case Nil
  then show ?case by simp
next
  case (Cons g gs)
  from Cons.prems have gs: "gs \<noteq> []" by auto
  with Cons.prems have g: "length g = m" by simp
  show ?case
  proof (cases k)
    case 0
    with g show ?thesis by simp
  next
    case (Suc j)
    from Cons.prems gs have "\<forall>g \<in> set (butlast gs). length g = m" by simp
    moreover from Cons.prems Suc have "Suc j < length gs" by simp
    ultimately have "gs ! j = take m (drop (j * m) (concat gs))" by (rule Cons.IH)
    with Suc g show ?thesis by simp
  qed
qed

lemma last_of_uniform_chunks:
  "\<forall>g \<in> set (butlast gs). length g = m \<Longrightarrow> gs \<noteq> [] \<Longrightarrow>
   last gs = drop ((length gs - 1) * m) (concat gs)"
proof (induction gs)
  case Nil
  then show ?case by simp
next
  case (Cons g gs)
  show ?case
  proof (cases "gs = []")
    case True
    then show ?thesis by simp
  next
    case False
    with Cons.prems have g: "length g = m" and rest: "\<forall>g \<in> set (butlast gs). length g = m"
      by simp_all
    from False obtain n where n: "length gs = Suc n" by (cases gs) auto
    from Cons.IH [OF rest False] False g n show ?thesis by simp
  qed
qed

lemma pad_last_group_shape:
  assumes ne: "gs \<noteq> []"
    and uni: "\<forall>g \<in> set (butlast gs). length g = m"
    and le: "length (last gs) \<le> m"
  shows "\<exists>cols. pad_last_group gs = Inr cols \<and> length cols = length gs
           \<and> butlast cols = map (map Node) (butlast gs)
           \<and> last cols = map Node (last gs) @ replicate (length (hd gs) - length (last gs)) Blank
           \<and> (\<forall>c \<in> set cols. length c = length (hd gs))"
proof -
  obtain g rest where gs: "gs = g # rest" using ne by (cases gs) auto
  let ?d = "int (length g) - int (length (last gs))"
  let ?cols = "map (map Node) gs"
  have hd_len: "rest \<noteq> [] \<Longrightarrow> length g = m" using uni gs by simp
  have last_le: "length (last gs) \<le> length g"
  proof (cases "rest = []")
    case True
    then show ?thesis using gs by simp
  next
    case False
    then show ?thesis using hd_len le by simp
  qed
  have all_le: "\<forall>c \<in> set (butlast gs). length c = length g"
  proof (cases "rest = []")
    case True
    then show ?thesis using gs by simp
  next
    case False
    then show ?thesis using hd_len uni by simp
  qed
  show ?thesis
  proof (cases "?d > 0")
    case True
    let ?res = "butlast ?cols @ [map Node (last gs) @ replicate (nat ?d) Blank]"
    have res: "pad_last_group gs = Inr ?res"
      using True gs by (simp add: pad_last_group_def Let_def)
    have n: "nat ?d = length g - length (last gs)" by simp
    have "length ?res = length gs" using ne by simp
    moreover have "butlast ?res = map (map Node) (butlast gs)" by (simp add: map_butlast)
    moreover have "last ?res = map Node (last gs) @ replicate (length (hd gs) - length (last gs)) Blank"
      using gs n by simp
    moreover have "\<forall>c \<in> set ?res. length c = length (hd gs)"
    proof
      fix c assume "c \<in> set ?res"
      then have "c \<in> map Node ` set (butlast gs)
                   \<or> c = map Node (last gs) @ replicate (nat ?d) Blank"
        by (auto simp: map_butlast [symmetric])
      then show "length c = length (hd gs)"
      proof
        assume "c \<in> map Node ` set (butlast gs)"
        then obtain x where "x \<in> set (butlast gs)" "c = map Node x" by blast
        with all_le gs show ?thesis by simp
      next
        assume "c = map Node (last gs) @ replicate (nat ?d) Blank"
        then have "length c = length (last gs) + (length g - length (last gs))"
          by (simp only: length_append length_map length_replicate n)
        with last_le gs show ?thesis by simp
      qed
    qed
    ultimately show ?thesis using res by blast
  next
    case False
    with last_le have eq: "length (last gs) = length g" by simp
    have res: "pad_last_group gs = Inr ?cols"
      using False gs by (simp add: pad_last_group_def Let_def)
    have "length ?cols = length gs" by simp
    moreover have "butlast ?cols = map (map Node) (butlast gs)" by (simp add: map_butlast)
    moreover have "last ?cols = map Node (last gs) @ replicate (length (hd gs) - length (last gs)) Blank"
      using gs eq ne by (simp add: last_map)
    moreover have "\<forall>c \<in> set ?cols. length c = length (hd gs)"
    proof
      fix c assume "c \<in> set ?cols"
      then obtain x where x: "x \<in> set gs" "c = map Node x" by auto
      have "butlast gs @ [last gs] = gs" using ne by simp
      then have "set gs = set (butlast gs @ [last gs])" by simp
      with x(1) have "x \<in> set (butlast gs) \<or> x = last gs" by auto
      with all_le eq gs x(2) show "length c = length (hd gs)" by auto
    qed
    ultimately show ?thesis using res by blast
  qed
qed

text \<open>
  Claim C4. When some node lies outside the starting cluster (and the column size is
  positive), the padded column list exists and every column has the height of the first:
  each column but the last is the next \<^verbatim>\<open>MAX_NODES_IN_COLUMN\<close> nodes, which is
  \<open>min MAX_NODES_IN_COLUMN remaining\<close>, and the last column is the remaining nodes
  followed by blank placeholders only.
\<close>

theorem column_padding_invariant:
  assumes maxn: "0 < maxn"
    and split: "split_columns starting nodes_and_clusters conns
                  = (nodes, starting_column, leftside_column)"
    and outside: "\<exists>(node, cluster) \<in> set nodes_and_clusters. Some cluster \<noteq> starting"
  shows "\<exists>cols. padded_columns maxn nodes = Inr cols \<and> cols \<noteq> []
           \<and> (\<forall>c \<in> set cols. length c = length (hd cols))
           \<and> (\<forall>k. Suc k < length cols \<longrightarrow>
                  cols ! k = map Node (take (nat maxn) (drop (k * nat maxn) nodes))
                  \<and> length (cols ! k) = nat maxn
                  \<and> length (cols ! k) = min (nat maxn) (length nodes - k * nat maxn))
           \<and> (\<exists>blanks. last cols
                  = map Node (drop ((length cols - 1) * nat maxn) nodes) @ replicate blanks Blank)"
proof -
  let ?m = "nat maxn"
  let ?gs = "make_node_groups maxn nodes"
  from split have nodes: "nodes = map fst (filter (\<lambda>(node, cluster). Some cluster \<noteq> starting) nodes_and_clusters)"
    by (simp add: split_columns_def Let_def)
  from outside have "filter (\<lambda>(node, cluster). Some cluster \<noteq> starting) nodes_and_clusters \<noteq> []"
    by (auto simp: filter_empty_conv)
  with nodes have nonempty: "nodes \<noteq> []" by simp
  from make_node_groups_shape [OF maxn, of nodes]
  have cat: "concat ?gs = nodes" and uni: "\<forall>g \<in> set (butlast ?gs). length g = ?m"
    and bound: "\<forall>g \<in> set ?gs. g \<noteq> [] \<and> length g \<le> ?m"
    by simp_all
  from cat nonempty have ne: "?gs \<noteq> []" by auto
  then have "last ?gs \<in> set ?gs" by simp
  with bound have le: "length (last ?gs) \<le> ?m" by blast
  from pad_last_group_shape [OF ne uni le] obtain cols where
    cols: "pad_last_group ?gs = Inr cols" "length cols = length ?gs"
      "butlast cols = map (map Node) (butlast ?gs)"
      "last cols = map Node (last ?gs) @ replicate (length (hd ?gs) - length (last ?gs)) Blank"
      "\<forall>c \<in> set cols. length c = length (hd ?gs)"
    by blast
  from cols(2) ne have cne: "cols \<noteq> []" by auto
  then have "hd cols \<in> set cols" by simp
  with cols(5) have hd: "length (hd cols) = length (hd ?gs)" by blast
  have early: "cols ! k = map Node (take ?m (drop (k * ?m) nodes))
                \<and> length (cols ! k) = ?m
                \<and> length (cols ! k) = min ?m (length nodes - k * ?m)"
    if k: "Suc k < length cols" for k
  proof -
    from k cols(2) have k': "Suc k < length ?gs" by simp
    have "cols ! k = butlast cols ! k" using k by (simp add: nth_butlast)
    also have "\<dots> = map Node (butlast ?gs ! k)" using cols(3) k' by simp
    also have "butlast ?gs ! k = ?gs ! k" using k' by (simp add: nth_butlast)
    finally have c: "cols ! k = map Node (?gs ! k)" .
    have g: "?gs ! k = take ?m (drop (k * ?m) nodes)"
      using nth_of_uniform_chunks [OF uni k'] cat by simp
    have "k < length (butlast ?gs)" using k' by simp
    then have "butlast ?gs ! k \<in> set (butlast ?gs)" by (rule nth_mem)
    then have "?gs ! k \<in> set (butlast ?gs)" using k' by (simp add: nth_butlast)
    with uni have len: "length (?gs ! k) = ?m" by blast
    have "length (take ?m (drop (k * ?m) nodes)) = min (length nodes - k * ?m) ?m" by simp
    with len g have "min (length nodes - k * ?m) ?m = ?m" by simp
    then have "length (?gs ! k) = min ?m (length nodes - k * ?m)" using len by (simp add: min.commute)
    with c g len show ?thesis by simp
  qed
  have "last cols = map Node (drop ((length cols - 1) * ?m) nodes)
                      @ replicate (length (hd ?gs) - length (last ?gs)) Blank"
    using cols(4) cols(2) last_of_uniform_chunks [OF uni ne] cat by simp
  then have lastc: "\<exists>blanks. last cols
      = map Node (drop ((length cols - 1) * ?m) nodes) @ replicate blanks Blank" ..
  have eqh: "\<forall>c \<in> set cols. length c = length (hd cols)" using cols(5) hd by simp
  have res: "padded_columns maxn nodes = Inr cols" using cols(1) by (simp add: padded_columns_def)
  from res cne eqh early lastc show ?thesis by blast
qed

theorem column_padding_invariant_witness:
  "(0::int) < 2
   \<and> split_columns (Some ''youtube'') [(1, ''youtube''), (2, ''a''), (3, ''a''), (4, ''b'')]
         [(1, 2, [])] = ([2, 3, 4], [1], [])
   \<and> padded_columns 2 [2, 3, 4] = Inr [[Node 2, Node 3], [Node 4, Blank]]
   \<and> (\<exists>cols. padded_columns 2 [2, 3, 4] = Inr cols \<and> cols \<noteq> []
         \<and> (\<forall>c \<in> set cols. length c = length (hd cols))
         \<and> (\<forall>k. Suc k < length cols \<longrightarrow>
                cols ! k = map Node (take (nat 2) (drop (k * nat 2) [2, 3, 4]))
                \<and> length (cols ! k) = nat 2
                \<and> length (cols ! k) = min (nat 2) (length [2, 3, 4 :: nat] - k * nat 2))
         \<and> (\<exists>blanks. last cols
                = map Node (drop ((length cols - 1) * nat 2) [2, 3, 4]) @ replicate blanks Blank))"
proof -
  have h1: "(0::int) < 2" by simp
  have h2: "split_columns (Some ''youtube'')
              [(1, ''youtube''), (2, ''a''), (3, ''a''), (4, ''b'')] [(1, 2, [])]
            = ([2, 3, 4], [1], [])"
    by (simp add: split_columns_def)
  have h3: "\<exists>(node, cluster) \<in> set [(1::nat, ''youtube''), (2, ''a''), (3, ''a''), (4, ''b'')].
              Some cluster \<noteq> Some ''youtube''"
    by simp
  have v: "padded_columns 2 [2, 3, 4] = Inr [[Node 2, Node 3], [Node 4, Blank]]"
    by (simp add: padded_columns_def make_node_groups_def pad_last_group_def)
  from column_padding_invariant [OF h1 h2 h3] h1 h2 v show ?thesis by blast
qed

lemma group_loop_concat:
  "group_loop maxn ns gs buffer i = (gs', b', i') \<Longrightarrow> concat gs' @ b' = concat gs @ buffer @ ns"
  by (induction ns arbitrary: gs buffer i) (auto split: if_splits)

lemma make_node_groups_nonempty:
  assumes "nodes \<noteq> []"
  shows "make_node_groups maxn nodes \<noteq> []"
proof -
  obtain gs b i where run: "group_loop maxn nodes [] [] 0 = (gs, b, i)"
    by (cases "group_loop maxn nodes [] [] 0") auto
  from group_loop_concat [OF run] have "concat gs @ b = nodes" by simp
  with assms have "b \<noteq> [] \<or> gs \<noteq> []" by auto
  then show ?thesis by (auto simp: make_node_groups_def run)
qed

lemma make_node_groups_Nil: "make_node_groups maxn [] = []"
  by (simp add: make_node_groups_def)

lemma pad_last_group_ok: "gs \<noteq> [] \<Longrightarrow> \<exists>cols. pad_last_group gs = Inr cols"
  by (cases gs) (simp_all add: pad_last_group_def Let_def)

text \<open>
  Claim C10. If every entry of the ordered node list belongs to the starting cluster, the
  list of remaining nodes is empty and \<^verbatim>\<open>node_groups[0]\<close> raises \<^verbatim>\<open>IndexError\<close>; if some
  entry lies outside the starting cluster, the indexing is in bounds and the grid is
  returned.
\<close>

theorem grid_requires_outside_node:
  "((\<forall>(node, cluster) \<in> set nodes_and_clusters. Some cluster = starting)
      \<longrightarrow> place_nodes_in_grid maxn starting nodes_and_clusters conns = Inl IndexError)
   \<and> ((\<exists>(node, cluster) \<in> set nodes_and_clusters. Some cluster \<noteq> starting)
      \<longrightarrow> (\<exists>grid. place_nodes_in_grid maxn starting nodes_and_clusters conns
                    = Inr (grid, False)))"
proof (intro conjI impI)
  let ?nodes = "map fst (filter (\<lambda>(node, cluster). Some cluster \<noteq> starting) nodes_and_clusters)"
  {
    assume "\<forall>(node, cluster) \<in> set nodes_and_clusters. Some cluster = starting"
    then have "filter (\<lambda>(node, cluster). Some cluster \<noteq> starting) nodes_and_clusters = []"
      by (auto simp: filter_empty_conv)
    then show "place_nodes_in_grid maxn starting nodes_and_clusters conns = Inl IndexError"
      by (simp add: place_nodes_in_grid_def split_columns_def padded_columns_def
            make_node_groups_Nil pad_last_group_def)
  }
  {
    assume "\<exists>(node, cluster) \<in> set nodes_and_clusters. Some cluster \<noteq> starting"
    then have "filter (\<lambda>(node, cluster). Some cluster \<noteq> starting) nodes_and_clusters \<noteq> []"
      by (auto simp: filter_empty_conv)
    then have "?nodes \<noteq> []" by simp
    then have "make_node_groups maxn ?nodes \<noteq> []" by (rule make_node_groups_nonempty)
    then obtain cols where "padded_columns maxn ?nodes = Inr cols"
      unfolding padded_columns_def using pad_last_group_ok by blast
    then show "\<exists>grid. place_nodes_in_grid maxn starting nodes_and_clusters conns
                 = Inr (grid, False)"
      by (simp add: place_nodes_in_grid_def split_columns_def Let_def)
  }
qed

theorem grid_requires_outside_node_witness:
  "place_nodes_in_grid 15 (Some ''youtube'') [(1, ''youtube''), (3, ''youtube'')] [(1, 3, [])]
     = Inl IndexError
   \<and> (\<exists>grid. place_nodes_in_grid 15 (Some ''youtube'') [(2, ''nongrouped''), (1, ''youtube'')]
                 [(1, 2, [])] = Inr (grid, False))"
proof -
  have a: "\<forall>(node, cluster) \<in> set [(1::nat, ''youtube''), (3, ''youtube'')].
             Some cluster = Some ''youtube''"
    by simp
  have b: "\<exists>(node, cluster) \<in> set [(2::nat, ''nongrouped''), (1, ''youtube'')].
             Some cluster \<noteq> Some ''youtube''"
    by simp
  from grid_requires_outside_node [of "[(1, ''youtube''), (3, ''youtube'')]" "Some ''youtube''"
         15 "[(1, 3, [])]"] a
  have "place_nodes_in_grid 15 (Some ''youtube'') [(1, ''youtube''), (3, ''youtube'')]
          [(1, 3, [])] = Inl IndexError"
    by blast
  moreover
  from grid_requires_outside_node [of "[(2, ''nongrouped''), (1, ''youtube'')]"
         "Some ''youtube''" 15 "[(1, 2, [])]"] b
  have "\<exists>grid. place_nodes_in_grid 15 (Some ''youtube'') [(2, ''nongrouped''), (1, ''youtube'')]
                 [(1, 2, [])] = Inr (grid, False)"
    by blast
  ultimately show ?thesis by blast
qed

section \<open>Properties of the edges\<close>

lemma count_up_sum:
  "sum_list (map snd (filter (\<lambda>(d, n). P d) (count_up x acc)))
     = sum_list (map snd (filter (\<lambda>(d, n). P d) acc)) + (if P x then 1 else 0)"
  by (induction acc) auto

lemma count_fold_sum:
  "sum_list (map snd (filter (\<lambda>(d, n). P d) (foldl (\<lambda>conn_data d. count_up d conn_data) acc cs)))
     = sum_list (map snd (filter (\<lambda>(d, n). P d) acc)) + length (filter P cs)"
  by (induction cs arbitrary: acc) (simp_all add: count_up_sum)

lemma count_connections_sum:
  "sum_list (map snd (filter (\<lambda>(d, n). P d) (count_connections cs))) = length (filter P cs)"
  by (simp add: count_connections_def count_fold_sum)

lemma raw_edges_between:
  "length (filter (\<lambda>e. name1 e = a \<and> name2 e = b) (format_edges False base cs))
     = length (filter (\<lambda>(n1, n2, c). n1 = a \<and> n2 = b) cs)"
  by (induction cs) (auto simp: format_edges_def)

lemma collapsed_edge_ends:
  "name1 (collapsed_edge base ((n1, n2, c), k)) = n1 \<and> name2 (collapsed_edge base ((n1, n2, c), k)) = n2"
  by (simp add: collapsed_edge_def)

text \<open>
  Claim C3. For every pair of nodes, the multiplicities that \<^verbatim>\<open>_format_edges\<close> counts for
  the collapsed edges between them add up to the number of edges it writes between them
  without minimization; with minimization it writes one edge per counted entry, between
  the same nodes. In the scenario (two unattributed edges from the first node to the
  second and one attributed edge to a third) the connections resolve to node numbers 1, 2
  and 6; without minimization three edges are written, with minimization two, the first
  with the width \<open>2 + 2 * 0.5\<close> of multiplicity 2.
\<close>

theorem edge_minimization_equivalence:
  "sum_list (map snd (filter (\<lambda>((n1, n2, c), k). n1 = a \<and> n2 = b) (count_connections cs)))
     = length (filter (\<lambda>e. name1 e = a \<and> name2 e = b) (format_edges False base cs))
   \<and> format_edges True base cs = map (collapsed_edge base) (count_connections cs)
   \<and> map (\<lambda>e. (name1 e, name2 e)) (format_edges True base cs)
       = map (\<lambda>((n1, n2, c), k). (n1, n2)) (count_connections cs)
   \<and> (case make_graph_body example_library script_settings
              ((init_creator 2 (Some (WEBSITES_TO_CLUSTERS script_settings)) (Some ''youtube''))
                 \<lparr>connections :=
                    [((''a.com'', None), (''b.com'', Some ''b.com''), None, Some ''a''),
                     ((''a.com'', None), (''b.com'', Some ''b.com''), None, Some ''a''),
                     ((''a.com'', None), (''c.com'', Some ''c.com''),
                      Some ''98f9ede02a07db6f8dd00f2e353425e5'', None)]\<rparr>) of
         Inl e \<Rightarrow> False
       | Inr st \<Rightarrow> resolved st = [(1, 2, []), (1, 2, []), (1, 6, ''#ff3838'')])
   \<and> length (format_edges False 2 [(1, 2, []), (1, 2, []), (1, 6, ''#ff3838'')]) = 3
   \<and> format_edges True 2 [(1, 2, []), (1, 2, []), (1, 6, ''#ff3838'')]
       = [\<lparr>name1 = 1, name2 = 2, attrs = [Penwidth (2 + 2 * (1 / 2))]\<rparr>,
          \<lparr>name1 = 1, name2 = 6, attrs = [Color ''#ff3838'']\<rparr>]"
proof -
  have p: "(\<lambda>((n1, n2, c), k). n1 = a \<and> n2 = b)
             = (\<lambda>(d, k::nat). (\<lambda>(n1, n2, c::string). n1 = a \<and> n2 = b) d)"
    by (auto simp: fun_eq_iff)
  have "sum_list (map snd (filter (\<lambda>((n1, n2, c), k). n1 = a \<and> n2 = b) (count_connections cs)))
          = length (filter (\<lambda>(n1, n2, c). n1 = a \<and> n2 = b) cs)"
    unfolding p by (rule count_connections_sum)
  then have general: "sum_list (map snd (filter (\<lambda>((n1, n2, c), k). n1 = a \<and> n2 = b)
                        (count_connections cs)))
      = length (filter (\<lambda>e. name1 e = a \<and> name2 e = b) (format_edges False base cs))"
    by (simp add: raw_edges_between)
  have on: "format_edges True base cs = map (collapsed_edge base) (count_connections cs)"
    by (simp add: format_edges_def)
  have ends: "map (\<lambda>e. (name1 e, name2 e)) (format_edges True base cs)
                = map (\<lambda>((n1, n2, c), k). (n1, n2)) (count_connections cs)"
    by (simp add: on collapsed_edge_def split_def)
  have body: "(case make_graph_body example_library script_settings
              ((init_creator 2 (Some (WEBSITES_TO_CLUSTERS script_settings)) (Some ''youtube''))
                 \<lparr>connections :=
                    [((''a.com'', None), (''b.com'', Some ''b.com''), None, Some ''a''),
                     ((''a.com'', None), (''b.com'', Some ''b.com''), None, Some ''a''),
                     ((''a.com'', None), (''c.com'', Some ''c.com''),
                      Some ''98f9ede02a07db6f8dd00f2e353425e5'', None)]\<rparr>) of
         Inl e \<Rightarrow> False
       | Inr st \<Rightarrow> resolved st = [(1, 2, []), (1, 2, []), (1, 6, ''#ff3838'')])"
    by code_simp
  have off3: "length (format_edges False 2 [(1, 2, []), (1, 2, []), (1, 6, ''#ff3838'')]) = 3"
    by (simp add: format_edges_def)
  have on2: "format_edges True 2 [(1, 2, []), (1, 2, []), (1, 6, ''#ff3838'')]
       = [\<lparr>name1 = 1, name2 = 2, attrs = [Penwidth (2 + 2 * (1 / 2))]\<rparr>,
          \<lparr>name1 = 1, name2 = 6, attrs = [Color ''#ff3838'']\<rparr>]"
    by (simp add: format_edges_def count_connections_def collapsed_edge_def)
  from general on ends body off3 on2 show ?thesis by (intro conjI)
qed

text \<open>
  Claim C8 does not hold of the code without minimization. An edge without attribution
  has the colour \<^verbatim>\<open>''\<close>. With minimization its statement carries no attribute, so
  the default \<^verbatim>\<open>edge [color="#8caff3", ...]\<close> applies; without minimization (the
  setting of the script) its statement carries the attribute \<^verbatim>\<open>color=""\<close> of its own.
\<close>

theorem unattributed_edge_without_minimization:
  "edge_color script_settings None = Inr []
   \<and> map_of (DEFAULT_GRAPH_PARAMS 2) ''edge'' = Some [(''color'', ''#8caff3''), (''penwidth'', ''2'')]
   \<and> format_edges False 2 [(1, 2, [])] = [\<lparr>name1 = 1, name2 = 2, attrs = [Color []]\<rparr>]
   \<and> format_edges_text False 2 [(1, 2, [])] = [''  1 -> 2 [color='' @ [CHR 0x22, CHR 0x22] @ ''];'']
   \<and> format_edges True 2 [(1, 2, [])] = [\<lparr>name1 = 1, name2 = 2, attrs = []\<rparr>]
   \<and> format_edges_text True 2 [(1, 2, [])] = [''  1 -> 2;'']"
  by code_simp

section \<open>Properties of the node order\<close>

lemma reorder_step_Inr:
  assumes "reorder_step lib conn_num (nrm, frm, clx) e = Inr (nrm', frm', clx')"
  shows "nrm' = (if fst e = ''nongrouped'' then cluster_segment lib conn_num e else nrm)"
    and "frm' = (if fst e = ''nongrouped'' then frm else frm @ cluster_segment lib conn_num e)"
    and "clx' = AList.update (fst e) (set_list lib (snd e)) clx"
  using assms
  by (auto simp: reorder_step_def sort_by_influence_def cluster_segment_def Let_def
      split: prod.splits sum.splits if_splits)

lemma fold_reorder:
  assumes "fold_err (reorder_step lib conn_num) es (nrm, frm, clx) = Inr (nrm', frm', clx')"
    and "distinct (map fst es)"
  shows "frm' = frm @ concat (map (cluster_segment lib conn_num)
                               (filter (\<lambda>e. fst e \<noteq> ''nongrouped'') es))"
    and "nrm' = (if ''nongrouped'' \<in> fst ` set es
                 then concat (map (cluster_segment lib conn_num)
                                (filter (\<lambda>e. fst e = ''nongrouped'') es))
                 else nrm)"
    and "clx' = foldl (\<lambda>c e. AList.update (fst e) (set_list lib (snd e)) c) clx es"
  using assms
proof (induction es arbitrary: nrm frm clx)
  case Nil
  {
    case 1 then show ?case by simp
  next
    case 2 then show ?case by simp
  next
    case 3 then show ?case by simp
  }
next
  case (Cons e es)
  {
    case 1
    from 1(1) obtain s1 where s1: "reorder_step lib conn_num (nrm, frm, clx) e = Inr s1"
      "fold_err (reorder_step lib conn_num) es s1 = Inr (nrm', frm', clx')"
      by (auto split: sum.splits)
    obtain n1 f1 c1 where t: "s1 = (n1, f1, c1)" by (cases s1) auto
    from 1(2) have d: "distinct (map fst es)" by simp
    note st = reorder_step_Inr [OF s1(1) [unfolded t]]
    from Cons.IH(1) [OF s1(2) [unfolded t] d] st(2) show ?case by simp
  next
    case 2
    from 2(1) obtain s1 where s1: "reorder_step lib conn_num (nrm, frm, clx) e = Inr s1"
      "fold_err (reorder_step lib conn_num) es s1 = Inr (nrm', frm', clx')"
      by (auto split: sum.splits)
    obtain n1 f1 c1 where t: "s1 = (n1, f1, c1)" by (cases s1) auto
    from 2(2) have d: "distinct (map fst es)" and new: "fst e \<notin> fst ` set es" by simp_all
    note st = reorder_step_Inr [OF s1(1) [unfolded t]]
    note ih = Cons.IH(2) [OF s1(2) [unfolded t] d]
    show ?case
    proof (cases "fst e = ''nongrouped''")
      case True
      with new have no: "''nongrouped'' \<notin> fst ` set es" by simp
      then have "filter (\<lambda>e. fst e = ''nongrouped'') es = []"
        by (force simp: filter_empty_conv image_iff)
      with ih st(1) True no show ?thesis by simp
    next
      case False
      with ih st(1) show ?thesis by simp
    qed
  next
    case 3
    from 3(1) obtain s1 where s1: "reorder_step lib conn_num (nrm, frm, clx) e = Inr s1"
      "fold_err (reorder_step lib conn_num) es s1 = Inr (nrm', frm', clx')"
      by (auto split: sum.splits)
    obtain n1 f1 c1 where t: "s1 = (n1, f1, c1)" by (cases s1) auto
    from 3(2) have d: "distinct (map fst es)" by simp
    note st = reorder_step_Inr [OF s1(1) [unfolded t]]
    from Cons.IH(3) [OF s1(2) [unfolded t] d] st(3) show ?case by simp
  }
qed

lemma reorder_segments:
  assumes run: "reorder_nodes_by_clusters lib cl conn_num = Inr (ordered, cl')"
    and keys: "distinct (map fst cl)"
  shows "ordered = concat (map (cluster_segment lib conn_num)
                     (filter (\<lambda>e. fst e = ''nongrouped'') cl
                        @ filter (\<lambda>e. fst e \<noteq> ''nongrouped'') cl))"
    and "cl' = foldl (\<lambda>c e. AList.update (fst e) (set_list lib (snd e)) c) cl cl"
proof -
  from run obtain nrm frm where
    f: "fold_err (reorder_step lib conn_num) cl ([], [], cl) = Inr (nrm, frm, cl')"
    and o: "ordered = nrm @ frm"
    by (auto simp: reorder_nodes_by_clusters_def split: sum.splits prod.splits)
  note r = fold_reorder [OF f keys]
  have "nrm = concat (map (cluster_segment lib conn_num)
                (filter (\<lambda>e. fst e = ''nongrouped'') cl))"
  proof (cases "''nongrouped'' \<in> fst ` set cl")
    case True
    with r(2) show ?thesis by simp
  next
    case False
    then have "filter (\<lambda>e. fst e = ''nongrouped'') cl = []"
      by (force simp: filter_empty_conv image_iff)
    with False r(2) show ?thesis by simp
  qed
  with r(1) o show "ordered = concat (map (cluster_segment lib conn_num)
                     (filter (\<lambda>e. fst e = ''nongrouped'') cl
                        @ filter (\<lambda>e. fst e \<noteq> ''nongrouped'') cl))"
    by simp
  show "cl' = foldl (\<lambda>c e. AList.update (fst e) (set_list lib (snd e)) c) cl cl"
    by (rule r(3))
qed

lemma segment_cluster: "\<forall>p \<in> set (cluster_segment lib conn_num e). snd p = fst e"
  by (auto simp: cluster_segment_def)

lemma filter_segment:
  "filter (\<lambda>(n, c). c = name) (cluster_segment lib conn_num e)
     = (if fst e = name then cluster_segment lib conn_num e else [])"
proof (cases "fst e = name")
  case True
  with segment_cluster [of lib conn_num e] show ?thesis
    by (auto simp: filter_id_conv)
next
  case False
  with segment_cluster [of lib conn_num e] show ?thesis
    by (auto simp: filter_empty_conv)
qed

lemma concat_single_key:
  "distinct (map fst es) \<Longrightarrow> e \<in> set es \<Longrightarrow>
   concat (map (\<lambda>x. if fst x = fst e then g x else []) es) = g e"
proof (induction es)
  case Nil
  then show ?case by simp
next
  case (Cons a es)
  show ?case
  proof (cases "a = e")
    case True
    from Cons.prems(1) have "\<forall>x \<in> set es. fst x \<noteq> fst a" by (auto simp: image_iff)
    then have "concat (map (\<lambda>x. if fst x = fst a then g x else []) es) = []"
      by (induction es) auto
    with True show ?thesis by simp
  next
    case False
    with Cons.prems have mem: "e \<in> set es" and "fst a \<noteq> fst e"
      by (auto simp: image_iff)
    with Cons.IH Cons.prems(1) show ?thesis by simp
  qed
qed

lemma filter_concat_segments:
  assumes "distinct (map fst es)" and "e \<in> set es"
  shows "filter (\<lambda>(n, c). c = fst e) (concat (map (cluster_segment lib conn_num) es))
           = cluster_segment lib conn_num e"
proof -
  have "filter (\<lambda>(n, c). c = fst e) (concat (map (cluster_segment lib conn_num) es))
          = concat (map (\<lambda>x. if fst x = fst e then cluster_segment lib conn_num x else []) es)"
    by (simp add: filter_concat comp_def filter_segment)
  also have "\<dots> = cluster_segment lib conn_num e"
    using assms by (rule concat_single_key)
  finally show ?thesis .
qed

lemma distinct_keys_partition:
  assumes "distinct (map fst es)"
  shows "distinct (map fst (filter P es @ filter (\<lambda>e. \<not> P e) es))"
proof -
  have "distinct (map fst (filter P es))" "distinct (map fst (filter (\<lambda>e. \<not> P e) es))"
    using assms by (simp_all add: distinct_map_filter)
  moreover have "fst ` set (filter P es) \<inter> fst ` set (filter (\<lambda>e. \<not> P e) es) = {}"
  proof (rule ccontr)
    assume "fst ` set (filter P es) \<inter> fst ` set (filter (\<lambda>e. \<not> P e) es) \<noteq> {}"
    then obtain a b where ab: "a \<in> set es" "P a" "b \<in> set es" "\<not> P b" "fst a = fst b"
      by auto
    from assms have "inj_on fst (set es)" by (simp add: distinct_map)
    with ab have "a = b" by (auto dest: inj_onD)
    with ab show False by simp
  qed
  ultimately show ?thesis by simp
qed

lemma map_fst_insort_pair:
  "map fst (insort_key (\<lambda>p. f (fst p)) (n, c) ps) = insort_key f n (map fst ps)"
  by (induction ps) auto

lemma map_fst_sort_pairs:
  "map fst (sort_key (\<lambda>p. f (fst p)) (map (\<lambda>n. (n, c)) xs)) = sort_key f xs"
  by (induction xs) (simp_all add: map_fst_insort_pair)

lemma segment_members:
  "map fst (cluster_segment lib conn_num (name, nodes))
     = sort_key (\<lambda>n. - influence conn_num n) (set_list lib nodes)"
  using map_fst_sort_pairs [of "\<lambda>n. - influence conn_num n" name "set_list lib nodes"]
  by (simp add: cluster_segment_def)

text \<open>
  Claim C7, as amended. Let the bucket names be distinct (they are the keys of a
  dictionary) and let \<^verbatim>\<open>list(set(nodes))\<close> enumerate every bucket without repetition. Then
  the entries of a bucket in the ordered list are its members, each once, by inbound
  count descending, and members with equal counts stand in the order in which
  \<^verbatim>\<open>list(set(nodes))\<close> enumerates them. The ordered list consists of the ungrouped bucket
  followed by the other buckets in dictionary order; it is a function of the buckets, the
  counts and that enumeration.
\<close>

theorem cluster_order_by_influence:
  assumes keys: "distinct (map fst cl)"
    and enum: "\<forall>(name, nodes) \<in> set cl.
                 distinct (set_list lib nodes) \<and> set (set_list lib nodes) = set nodes"
    and run: "reorder_nodes_by_clusters lib cl conn_num = Inr (ordered, cl')"
    and entry: "(name, nodes) \<in> set cl"
    and members: "members = map fst (filter (\<lambda>(n, c). c = name) ordered)"
  shows "distinct members \<and> set members = set nodes
       \<and> sorted_wrt (\<lambda>a b. influence conn_num b \<le> influence conn_num a) members
       \<and> (\<forall>k. filter (\<lambda>n. influence conn_num n = k) members
                = filter (\<lambda>n. influence conn_num n = k) (set_list lib nodes))
       \<and> ordered = concat (map (\<lambda>(c, ns). filter (\<lambda>(n, c'). c' = c) ordered)
                             (filter (\<lambda>e. fst e = ''nongrouped'') cl
                                @ filter (\<lambda>e. fst e \<noteq> ''nongrouped'') cl))"
proof -
  let ?es = "filter (\<lambda>e. fst e = ''nongrouped'') cl @ filter (\<lambda>e. fst e \<noteq> ''nongrouped'') cl"
  let ?key = "\<lambda>n. - influence conn_num n"
  have ord: "ordered = concat (map (cluster_segment lib conn_num) ?es)"
    using run keys by (rule reorder_segments(1))
  have dk: "distinct (map fst ?es)" using keys by (rule distinct_keys_partition)
  have seg: "filter (\<lambda>(n, c). c = fst e) ordered = cluster_segment lib conn_num e"
    if "e \<in> set cl" for e
  proof -
    from that have "e \<in> set ?es" by auto
    with dk show ?thesis unfolding ord by (rule filter_concat_segments)
  qed
  from seg [OF entry] have m: "members = sort_key ?key (set_list lib nodes)"
    by (simp add: members segment_members)
  from enum entry have e: "distinct (set_list lib nodes)" "set (set_list lib nodes) = set nodes"
    by auto
  have d: "distinct members" using m e by simp
  have s: "set members = set nodes" using m e by simp
  have "sorted (map ?key members)" unfolding m by (rule sorted_sort_key)
  then have srt: "sorted_wrt (\<lambda>a b. influence conn_num b \<le> influence conn_num a) members"
    by (simp add: sorted_map)
  have stable: "filter (\<lambda>n. influence conn_num n = k) members
                  = filter (\<lambda>n. influence conn_num n = k) (set_list lib nodes)" for k
  proof -
    have "filter (\<lambda>n. ?key n = - k) (sort_key ?key (set_list lib nodes))
            = filter (\<lambda>n. ?key n = - k) (set_list lib nodes)"
      by (rule sort_key_stable)
    then show ?thesis by (simp add: m)
  qed
  have segs: "map (\<lambda>(c, ns). filter (\<lambda>(n, c'). c' = c) ordered) ?es
          = map (cluster_segment lib conn_num) ?es"
  proof (rule map_cong [OF refl])
    fix e assume "e \<in> set ?es"
    then have "e \<in> set cl" by auto
    from seg [OF this] show "(case e of (c, ns) \<Rightarrow> filter (\<lambda>(n, c'). c' = c) ordered)
                               = cluster_segment lib conn_num e"
      by (simp add: split_def)
  qed
  have whole: "ordered = concat (map (\<lambda>(c, ns). filter (\<lambda>(n, c'). c' = c) ordered) ?es)"
    unfolding segs by (rule ord)
  from d s srt stable whole show ?thesis by blast
qed

lemma slot_order_enumerates: "distinct (slot_order xs) \<and> set (slot_order xs) = set xs"
  by (simp add: slot_order_def)

theorem cluster_order_by_influence_witness:
  "reorder_nodes_by_clusters example_library
     [(''nongrouped'', [1, 3, 1, 5]), (''youtube'', [2, 4, 2, 6])] [(2, 1), (4, 2), (6, 1), (1, 0), (3, 0), (5, 0)]
     = Inr ([(1, ''nongrouped''), (3, ''nongrouped''), (5, ''nongrouped''),
             (4, ''youtube''), (2, ''youtube''), (6, ''youtube'')],
            [(''nongrouped'', [1, 3, 5]), (''youtube'', [2, 4, 6])])
   \<and> distinct [4, 2, 6 :: nat] \<and> set [4, 2, 6 :: nat] = set [2, 4, 2, 6]
   \<and> sorted_wrt (\<lambda>a b. influence [(2, 1), (4, 2), (6, 1), (1, 0), (3, 0), (5, 0)] b
                        \<le> influence [(2, 1), (4, 2), (6, 1), (1, 0), (3, 0), (5, 0)] a) [4, 2, 6]
   \<and> (\<forall>k. filter (\<lambda>n. influence [(2, 1), (4, 2), (6, 1), (1, 0), (3, 0), (5, 0)] n = k) [4, 2, 6]
            = filter (\<lambda>n. influence [(2, 1), (4, 2), (6, 1), (1, 0), (3, 0), (5, 0)] n = k)
                (set_list example_library [2, 4, 2, 6]))"
proof -
  let ?cl = "[(''nongrouped'', [1, 3, 1, 5 :: nat]), (''youtube'', [2, 4, 2, 6])]"
  let ?cn = "[(2, 1), (4, 2), (6, 1), (1, 0), (3, 0), (5, 0)] :: (nat \<times> nat) list"
  let ?ord = "[(1, ''nongrouped''), (3, ''nongrouped''), (5, ''nongrouped''),
               (4, ''youtube''), (2, ''youtube''), (6, ''youtube'')] :: (nat \<times> string) list"
  have keys: "distinct (map fst ?cl)" by simp
  have enum: "\<forall>(name, nodes) \<in> set ?cl.
      distinct (set_list example_library nodes) \<and> set (set_list example_library nodes) = set nodes"
    using slot_order_enumerates by (simp add: example_library_def)
  have run: "reorder_nodes_by_clusters example_library ?cl ?cn
               = Inr (?ord, [(''nongrouped'', [1, 3, 5]), (''youtube'', [2, 4, 6])])"
    by code_simp
  have entry: "(''youtube'', [2, 4, 2, 6]) \<in> set ?cl" by simp
  have members: "[4, 2, 6] = map fst (filter (\<lambda>(n, c). c = ''youtube'') ?ord)" by simp
  note inst = cluster_order_by_influence [OF keys enum run entry members]
  from inst run show ?thesis by blast
qed

text \<open>
  Claim C7 as stated fails: ties do not keep first-seen order. One page links to four
  targets, the first and the last on \<^verbatim>\<open>youtube.com\<close>; they get the numbers 2 and 8 and one
  inbound edge each. CPython enumerates the set \<^verbatim>\<open>{2, 8}\<close> as \<^verbatim>\<open>[8, 2]\<close>, and the stable sort
  keeps that order: node 8 precedes node 2, which was seen first.
\<close>

theorem ties_follow_the_set_enumeration:
  "case make_graph_body example_library script_settings
          ((init_creator 2 (Some (WEBSITES_TO_CLUSTERS script_settings)) (Some ''youtube''))
             \<lparr>connections :=
                [((''page'', None), (''youtube.com/a'', Some ''youtube.com''), None, Some ''p''),
                 ((''page'', None), (''x.org/a'', Some ''x.org''), None, Some ''p''),
                 ((''page'', None), (''y.org/a'', Some ''y.org''), None, Some ''p''),
                 ((''page'', None), (''youtube.com/b'', Some ''youtube.com''), None, Some ''p'')]\<rparr>) of
     Inl e \<Rightarrow> False
   | Inr st \<Rightarrow>
       resolved st = [(1, 2, []), (1, 4, []), (1, 6, []), (1, 8, [])]
       \<and> clusters st = [(''nongrouped'', [1, 1, 4, 1, 6, 1]), (''youtube'', [2, 8])]
       \<and> inbound_counts (node_map st) (resolved st) = [(2, 1), (4, 1), (6, 1), (8, 1), (1, 0)]
       \<and> reorder_nodes_by_clusters example_library (clusters st)
             (inbound_counts (node_map st) (resolved st))
           = Inr ([(4, ''nongrouped''), (6, ''nongrouped''), (1, ''nongrouped''),
                   (8, ''youtube''), (2, ''youtube'')],
                  [(''nongrouped'', [1, 4, 6]), (''youtube'', [8, 2])])"
  by code_simp

section \<open>Properties of the cluster buckets\<close>

lemma map_of_append_to:
  "map_of (append_to name x cl) name'
     = (if name' = name
        then Some ((case map_of cl name of Some xs \<Rightarrow> xs | None \<Rightarrow> []) @ [x])
        else map_of cl name')"
  by (induction name x cl rule: append_to.induct) auto

lemma in_bucket_append_to:
  "in_bucket (append_to name x cl) name' n = (in_bucket cl name' n \<or> (name' = name \<and> n = x))"
  by (auto simp: in_bucket_def map_of_append_to split: option.splits)

lemma keys_append_to:
  "map fst (append_to name x cl)
     = (if name \<in> fst ` set cl then map fst cl else map fst cl @ [name])"
  by (induction name x cl rule: append_to.induct) (auto simp: image_iff)

lemma distinct_append_to: "distinct (map fst cl) \<Longrightarrow> distinct (map fst (append_to name x cl))"
  by (simp add: keys_append_to)

text \<open>The loop over the aliases, for the endpoint \<open>(text, n)\<close>.\<close>

lemma alias_loop:
  assumes "foldl (\<lambda>(clusters, clusterized_nodes) clustname.
                    if str_in clustname text
                    then (append_to (escape_special_chars clustname) n clusters,
                          insert n clusterized_nodes)
                    else (clusters, clusterized_nodes)) (cl, cz) aliases = (cl', cz')"
  shows "(\<forall>name m. in_bucket cl' name m
            = (in_bucket cl name m
               \<or> (m = n \<and> (\<exists>a \<in> set aliases. str_in a text \<and> name = escape_special_chars a))))
       \<and> cz' = (if \<exists>a \<in> set aliases. str_in a text then insert n cz else cz)
       \<and> (distinct (map fst cl) \<longrightarrow> distinct (map fst cl'))"
  using assms
proof (induction aliases arbitrary: cl' cz' rule: rev_induct)
  case Nil
  then show ?case by simp
next
  case (snoc a aliases)
  let ?f = "\<lambda>(clusters, clusterized_nodes) clustname.
                    if str_in clustname text
                    then (append_to (escape_special_chars clustname) n clusters,
                          insert n clusterized_nodes)
                    else (clusters, clusterized_nodes)"
  obtain c1 z1 where mid: "foldl ?f (cl, cz) aliases = (c1, z1)"
    by (cases "foldl ?f (cl, cz) aliases") auto
  note ih = snoc.IH [OF mid]
  show ?case
  proof (cases "str_in a text")
    case True
    with snoc.prems mid have res: "cl' = append_to (escape_special_chars a) n c1" "cz' = insert n z1"
      by simp_all
    have b: "\<forall>name m. in_bucket cl' name m
            = (in_bucket cl name m
               \<or> (m = n \<and> (\<exists>x \<in> set (aliases @ [a]). str_in x text \<and> name = escape_special_chars x)))"
      using ih True by (auto simp: res in_bucket_append_to)
    have z: "cz' = (if \<exists>x \<in> set (aliases @ [a]). str_in x text then insert n cz else cz)"
      using ih True by (auto simp: res)
    have d: "distinct (map fst cl) \<longrightarrow> distinct (map fst cl')"
      using ih by (simp add: res distinct_append_to)
    from b z d show ?thesis by blast
  next
    case False
    with snoc.prems mid have res: "cl' = c1" "cz' = z1" by simp_all
    have b: "\<forall>name m. in_bucket cl' name m
            = (in_bucket cl name m
               \<or> (m = n \<and> (\<exists>x \<in> set (aliases @ [a]). str_in x text \<and> name = escape_special_chars x)))"
      using ih False by (auto simp: res)
    have z: "cz' = (if \<exists>x \<in> set (aliases @ [a]). str_in x text then insert n cz else cz)"
      using ih False by (auto simp: res)
    have d: "distinct (map fst cl) \<longrightarrow> distinct (map fst cl')"
      using ih by (simp add: res)
    from b z d show ?thesis by blast
  qed
qed

lemma map_to_clusters_result:
  assumes "map_to_clusters aliases s n (cl, cz) = (cl', cz')"
  defines "text \<equiv> replace_str [CHR 0x0A] [] (lower s)"
  defines "hit \<equiv> (\<exists>a \<in> set aliases. str_in a text)"
  shows "\<forall>name m. in_bucket cl' name m
            = (in_bucket cl name m
               \<or> (m = n \<and> (\<exists>a \<in> set aliases. str_in a text \<and> name = escape_special_chars a))
               \<or> (m = n \<and> name = ''nongrouped'' \<and> \<not> hit \<and> n \<notin> cz))"
    and "cz' = (if hit then insert n cz else cz)"
    and "distinct (map fst cl) \<Longrightarrow> distinct (map fst cl')"
proof -
  let ?f = "\<lambda>(clusters, clusterized_nodes) clustname.
                    if str_in clustname text
                    then (append_to (escape_special_chars clustname) n clusters,
                          insert n clusterized_nodes)
                    else (clusters, clusterized_nodes)"
  obtain c1 z1 where mid: "foldl ?f (cl, cz) aliases = (c1, z1)"
    by (cases "foldl ?f (cl, cz) aliases") auto
  note loop = alias_loop [OF mid]
  have z1: "z1 = (if hit then insert n cz else cz)" using loop by (simp add: hit_def)
  have res: "(cl', cz') = (if n \<in> z1 then (c1, z1) else (append_to ''nongrouped'' n c1, z1))"
    using assms(1) mid by (simp add: map_to_clusters_def Let_def text_def)
  show "cz' = (if hit then insert n cz else cz)" using res z1 by (auto split: if_splits)
  show "distinct (map fst cl')" if "distinct (map fst cl)"
    using res loop that by (auto split: if_splits simp: distinct_append_to)
  show "\<forall>name m. in_bucket cl' name m
            = (in_bucket cl name m
               \<or> (m = n \<and> (\<exists>a \<in> set aliases. str_in a text \<and> name = escape_special_chars a))
               \<or> (m = n \<and> name = ''nongrouped'' \<and> \<not> hit \<and> n \<notin> cz))"
  proof (cases "n \<in> z1")
    case True
    with res have "cl' = c1" by simp
    moreover from True z1 have "hit \<or> n \<in> cz" by (auto split: if_splits)
    ultimately show ?thesis using loop by auto
  next
    case False
    with res have "cl' = append_to ''nongrouped'' n c1" by simp
    moreover from False z1 have "\<not> hit \<and> n \<notin> cz" by (auto split: if_splits)
    ultimately show ?thesis using loop by (auto simp: in_bucket_append_to)
  qed
qed

lemma map_to_clusters_step:
  assumes run: "map_to_clusters aliases s n (cl, cz) = (cl', cz')"
  shows "\<And>name m. in_bucket cl name m \<Longrightarrow> in_bucket cl' name m"
    and "\<And>name m. in_bucket cl' name m \<Longrightarrow> in_bucket cl name m \<or> m = n"
    and "\<And>a. a \<in> set aliases \<Longrightarrow> str_in a (replace_str [CHR 0x0A] [] (lower s))
           \<Longrightarrow> in_bucket cl' (escape_special_chars a) n"
    and "cz \<subseteq> cz'"
    and "\<And>m. m \<in> cz' \<Longrightarrow>
           m \<in> cz \<or> (m = n \<and> (\<exists>a \<in> set aliases. in_bucket cl' (escape_special_chars a) n))"
    and "n \<in> cz' \<or> in_bucket cl' ''nongrouped'' n"
    and "distinct (map fst cl) \<Longrightarrow> distinct (map fst cl')"
proof -
  note r = map_to_clusters_result [OF run]
  show "in_bucket cl' name m" if "in_bucket cl name m" for name m
    using r(1) that by blast
  show "in_bucket cl name m \<or> m = n" if "in_bucket cl' name m" for name m
    using r(1) that by blast
  show hit: "in_bucket cl' (escape_special_chars a) n"
    if "a \<in> set aliases" "str_in a (replace_str [CHR 0x0A] [] (lower s))" for a
    using r(1) that by blast
  show "cz \<subseteq> cz'" using r(2) by (auto split: if_splits)
  show "m \<in> cz \<or> (m = n \<and> (\<exists>a \<in> set aliases. in_bucket cl' (escape_special_chars a) n))"
    if "m \<in> cz'" for m
  proof (cases "\<exists>a \<in> set aliases. str_in a (replace_str [CHR 0x0A] [] (lower s))")
    case True
    then obtain a where a: "a \<in> set aliases" "str_in a (replace_str [CHR 0x0A] [] (lower s))"
      by blast
    from hit [OF a] a(1) have "\<exists>a \<in> set aliases. in_bucket cl' (escape_special_chars a) n"
      by blast
    moreover from True r(2) that have "m \<in> cz \<or> m = n" by auto
    ultimately show ?thesis by blast
  next
    case False
    with r(2) that show ?thesis by simp
  qed
  show "n \<in> cz' \<or> in_bucket cl' ''nongrouped'' n"
  proof (cases "\<exists>a \<in> set aliases. str_in a (replace_str [CHR 0x0A] [] (lower s))")
    case True
    with r(2) show ?thesis by simp
  next
    case False
    show ?thesis
    proof (cases "n \<in> cz")
      case True
      with r(2) False show ?thesis by simp
    next
      case nin: False
      from r(1) False nin have "in_bucket cl' ''nongrouped'' n" by blast
      then show ?thesis ..
    qed
  qed
  show "distinct (map fst cl')" if "distinct (map fst cl)"
    using r(3) that .
qed

lemma bucket_inv_endpoint:
  assumes inv: "bucket_inv aliases L R cl cz"
    and run: "map_to_clusters aliases s n (cl, cz) = (cl', cz')"
  shows "bucket_inv aliases (L @ [s]) (R @ [n]) cl' cz'"
proof -
  note m = map_to_clusters_step [OF run]
  from inv have len: "length R = length L"
    and al: "\<forall>(s, n) \<in> set (zip L R). \<forall>a \<in> set aliases.
            str_in a (replace_str [CHR 0x0A] [] (lower s))
              \<longrightarrow> in_bucket cl (escape_special_chars a) n"
    and ng: "\<forall>n \<in> set R. in_bucket cl ''nongrouped'' n \<or> n \<in> cz"
    and cz: "\<forall>m \<in> cz. \<exists>a \<in> set aliases. in_bucket cl (escape_special_chars a) m"
    and ref: "\<forall>name m. in_bucket cl name m \<longrightarrow> m \<in> set R"
    and dk: "distinct (map fst cl)"
    by (simp_all add: bucket_inv_def)
  have z: "zip (L @ [s]) (R @ [n]) = zip L R @ [(s, n)]" using len by simp
  have 1: "length (R @ [n]) = length (L @ [s])" using len by simp
  have 2: "\<forall>(s', n') \<in> set (zip (L @ [s]) (R @ [n])). \<forall>a \<in> set aliases.
            str_in a (replace_str [CHR 0x0A] [] (lower s'))
              \<longrightarrow> in_bucket cl' (escape_special_chars a) n'"
    unfolding z using al m(1) m(3) by auto
  have 3: "\<forall>n' \<in> set (R @ [n]). in_bucket cl' ''nongrouped'' n' \<or> n' \<in> cz'"
    using ng m(1) m(4) m(6) by auto
  have 4: "\<forall>m \<in> cz'. \<exists>a \<in> set aliases. in_bucket cl' (escape_special_chars a) m"
  proof
    fix x assume "x \<in> cz'"
    from m(5) [OF this] show "\<exists>a \<in> set aliases. in_bucket cl' (escape_special_chars a) x"
    proof
      assume "x \<in> cz"
      with cz obtain a where "a \<in> set aliases" "in_bucket cl (escape_special_chars a) x" by blast
      with m(1) show ?thesis by blast
    next
      assume "x = n \<and> (\<exists>a \<in> set aliases. in_bucket cl' (escape_special_chars a) n)"
      then show ?thesis by blast
    qed
  qed
  have 5: "\<forall>name x. in_bucket cl' name x \<longrightarrow> x \<in> set (R @ [n])"
    using ref m(2) by auto
  have 6: "distinct (map fst cl')" using dk by (rule m(7))
  from 1 2 3 4 5 6 show ?thesis unfolding bucket_inv_def by blast
qed

lemma bucket_inv_step:
  assumes inv: "bucket_inv (map fst d2c) L (returned_numbers (resolved st))
                  (clusters st) (clusterized_nodes st)"
    and d2c: "domains_to_clusters (creator st) = Some d2c"
    and run: "body_step lib cfg st conn = Inr st'"
  shows "bucket_inv (map fst d2c) (L @ formatted_labels lib cfg [conn])
           (returned_numbers (resolved st')) (clusters st') (clusterized_nodes st')"
proof -
  obtain src tgt author origin where conn: "conn = (src, tgt, author, origin)"
    by (cases conn) auto
  let ?s1 = "format_link_for_display lib cfg (fst src)"
  let ?s2 = "format_link_for_display lib cfg (fst tgt)"
  from run [unfolded conn] obtain n1 n2 col d2c' where
    d: "domains_to_clusters (creator st') = Some d2c'"
    and r: "resolved st' = resolved st @ [(n1, n2, col)]"
    and c: "(clusters st', clusterized_nodes st')
           = map_to_clusters (map fst d2c') ?s2 n2
               (map_to_clusters (map fst d2c') ?s1 n1 (clusters st, clusterized_nodes st))"
    by (rule body_step_Inr)
  from body_step_config(2) [OF run] d d2c have same: "d2c' = d2c" by simp
  obtain c1 z1 where first: "map_to_clusters (map fst d2c) ?s1 n1
      (clusters st, clusterized_nodes st) = (c1, z1)"
    by (cases "map_to_clusters (map fst d2c) ?s1 n1 (clusters st, clusterized_nodes st)") auto
  from c same first
  have second: "map_to_clusters (map fst d2c) ?s2 n2 (c1, z1) = (clusters st', clusterized_nodes st')"
    by simp
  have labels: "L @ formatted_labels lib cfg [conn] = (L @ [?s1]) @ [?s2]"
    by (simp add: conn formatted_labels_def)
  have nums: "returned_numbers (resolved st') = (returned_numbers (resolved st) @ [n1]) @ [n2]"
    using r by (simp add: returned_numbers_def)
  from bucket_inv_endpoint [OF bucket_inv_endpoint [OF inv first] second]
  show ?thesis unfolding labels nums .
qed

lemma bucket_inv_fold:
  assumes "fold_err (body_step lib cfg) cs st = Inr st'"
    and "bucket_inv (map fst d2c) L (returned_numbers (resolved st))
           (clusters st) (clusterized_nodes st)"
    and "domains_to_clusters (creator st) = Some d2c"
  shows "bucket_inv (map fst d2c) (L @ formatted_labels lib cfg cs)
           (returned_numbers (resolved st')) (clusters st') (clusterized_nodes st')"
  using assms
proof (induction cs arbitrary: st L)
  case Nil
  then show ?case by (simp add: formatted_labels_def)
next
  case (Cons c cs)
  from Cons.prems(1) obtain s1 where
    s1: "body_step lib cfg st c = Inr s1" "fold_err (body_step lib cfg) cs s1 = Inr st'"
    by (auto split: sum.splits)
  note step = bucket_inv_step [OF Cons.prems(2,3) s1(1)]
  from body_step_config(2) [OF s1(1)] Cons.prems(3)
  have d: "domains_to_clusters (creator s1) = Some d2c" by simp
  have app: "L @ formatted_labels lib cfg (c # cs)
      = (L @ formatted_labels lib cfg [c]) @ formatted_labels lib cfg cs"
    by (simp add: formatted_labels_Cons [of lib cfg c cs])
  from Cons.IH [OF s1(2) step d] show ?case unfolding app .
qed

lemma make_graph_body_buckets:
  assumes run: "make_graph_body lib cfg gc = Inr st"
    and d2c: "domains_to_clusters gc = Some d2c"
  shows "bucket_inv (map fst d2c) (formatted_labels lib cfg (connections gc))
           (returned_numbers (resolved st)) (clusters st) (clusterized_nodes st)"
proof -
  let ?init = "\<lparr>creator = gc, node_map = [], url_map = [], resolved = [], clusters = [],
        clusterized_nodes = {}\<rparr>"
  have f: "fold_err (body_step lib cfg) (connections gc) ?init = Inr st"
    using run by (simp add: make_graph_body_def)
  have i: "bucket_inv (map fst d2c) [] (returned_numbers (resolved ?init))
             (clusters ?init) (clusterized_nodes ?init)"
    by (simp add: bucket_inv_def returned_numbers_def in_bucket_def)
  have d: "domains_to_clusters (creator ?init) = Some d2c" using d2c by simp
  from bucket_inv_fold [OF f i d] show ?thesis by simp
qed

lemma update_at_key:
  "k \<notin> fst ` set xs \<Longrightarrow> AList.update k v (xs @ (k, w) # ys) = xs @ (k, v) # ys"
  by (induction xs) auto

lemma dedup_fold_aux:
  "distinct (map fst (pre @ es)) \<Longrightarrow>
   foldl (\<lambda>c e. AList.update (fst e) (f (snd e)) c) (map (\<lambda>e. (fst e, f (snd e))) pre @ es) es
     = map (\<lambda>e. (fst e, f (snd e))) (pre @ es)"
proof (induction es arbitrary: pre)
  case Nil
  then show ?case by simp
next
  case (Cons e es)
  let ?g = "\<lambda>e. (fst e, f (snd e))"
  from Cons.prems have new: "fst e \<notin> fst ` set (map ?g pre)" by (auto simp: image_iff)
  have "AList.update (fst e) (f (snd e)) (map ?g pre @ e # es) = map ?g pre @ ?g e # es"
    using update_at_key [OF new, of "f (snd e)" "snd e" es] by simp
  then have "foldl (\<lambda>c e. AList.update (fst e) (f (snd e)) c) (map ?g pre @ e # es) (e # es)
      = foldl (\<lambda>c e. AList.update (fst e) (f (snd e)) c) (map ?g (pre @ [e]) @ es) es"
    by simp
  also have "\<dots> = map ?g ((pre @ [e]) @ es)"
    using Cons.prems by (intro Cons.IH) simp
  finally show ?case by simp
qed

lemma dedup_fold:
  "distinct (map fst cl) \<Longrightarrow>
   foldl (\<lambda>c e. AList.update (fst e) (f (snd e)) c) cl cl = map (\<lambda>e. (fst e, f (snd e))) cl"
  using dedup_fold_aux [of "[]" cl f] by simp

lemma in_bucket_distinct:
  "distinct (map fst cl) \<Longrightarrow> (name, ns) \<in> set cl \<Longrightarrow> in_bucket cl name n = (n \<in> set ns)"
  by (simp add: in_bucket_def)

lemma reorder_deduplicates:
  assumes keys: "distinct (map fst cl)"
    and enum: "\<forall>(name, ns) \<in> set cl. distinct (set_list lib ns) \<and> set (set_list lib ns) = set ns"
    and run: "reorder_nodes_by_clusters lib cl conn_num = Inr (ordered, cl')"
  shows "map fst cl' = map fst cl"
    and "\<forall>(name, ns) \<in> set cl'. distinct ns \<and> (\<forall>n. (n \<in> set ns) = in_bucket cl name n)"
proof -
  from reorder_segments(2) [OF run keys] dedup_fold [OF keys, of "set_list lib"]
  have cl': "cl' = map (\<lambda>e. (fst e, set_list lib (snd e))) cl" by simp
  show "map fst cl' = map fst cl" by (simp add: cl' comp_def)
  show "\<forall>(name, ns) \<in> set cl'. distinct ns \<and> (\<forall>n. (n \<in> set ns) = in_bucket cl name n)"
  proof (clarify, intro conjI allI)
    fix name ns assume "(name, ns) \<in> set cl'"
    then obtain ns0 where e: "(name, ns0) \<in> set cl" and ns: "ns = set_list lib ns0"
      by (auto simp: cl')
    from enum e have ok: "distinct (set_list lib ns0)" "set (set_list lib ns0) = set ns0"
      by auto
    show "distinct ns" using ok ns by simp
    show "(n \<in> set ns) = in_bucket cl name n" for n
      using ok ns in_bucket_distinct [OF keys e] by simp
  qed
qed

lemma placement_inv_endpoint:
  assumes inv: "placement_inv aliases L R cl cz"
    and run: "map_to_clusters aliases s n (cl, cz) = (cl', cz')"
  shows "placement_inv aliases (L @ [s]) (R @ [n]) cl' cz'"
proof -
  let ?hit = "\<lambda>s a. str_in a (replace_str [CHR 0x0A] [] (lower s))"
  note r = map_to_clusters_result [OF run]
  from inv have len: "length R = length L"
    and up: "\<And>name m. in_bucket cl name m \<Longrightarrow>
            (\<exists>s. (s, m) \<in> set (zip L R)
               \<and> ((\<exists>a \<in> set aliases. ?hit s a \<and> name = escape_special_chars a)
                    \<or> (name = ''nongrouped'' \<and> (\<forall>a \<in> set aliases. \<not> ?hit s a))))"
    and cz: "\<And>m. m \<in> cz \<Longrightarrow> \<exists>s. (s, m) \<in> set (zip L R) \<and> (\<exists>a \<in> set aliases. ?hit s a)"
    and ng: "\<And>s m. (s, m) \<in> set (zip L R) \<Longrightarrow> \<forall>a \<in> set aliases. \<not> ?hit s a \<Longrightarrow> m \<notin> cz
               \<Longrightarrow> in_bucket cl ''nongrouped'' m"
    unfolding placement_inv_def by blast+
  have z: "set (zip (L @ [s]) (R @ [n])) = insert (s, n) (set (zip L R))" using len by simp
  have 1: "length (R @ [n]) = length (L @ [s])" using len by simp
  have 2: "\<exists>s'. (s', m) \<in> set (zip (L @ [s]) (R @ [n]))
               \<and> ((\<exists>a \<in> set aliases. ?hit s' a \<and> name = escape_special_chars a)
                    \<or> (name = ''nongrouped'' \<and> (\<forall>a \<in> set aliases. \<not> ?hit s' a)))"
    if b: "in_bucket cl' name m" for name m
  proof -
    from r(1) b consider
      (old) "in_bucket cl name m"
      | (hit) "m = n" "\<exists>a \<in> set aliases. ?hit s a \<and> name = escape_special_chars a"
      | (ung) "m = n" "name = ''nongrouped''" "\<not> (\<exists>a \<in> set aliases. ?hit s a)"
      by blast
    then show ?thesis
    proof cases
      case old
      from up [OF old] show ?thesis unfolding z by blast
    next
      case hit
      then show ?thesis unfolding z by blast
    next
      case ung
      then show ?thesis unfolding z by blast
    qed
  qed
  have 3: "\<exists>s'. (s', m) \<in> set (zip (L @ [s]) (R @ [n])) \<and> (\<exists>a \<in> set aliases. ?hit s' a)"
    if "m \<in> cz'" for m
  proof (cases "m \<in> cz")
    case True
    from cz [OF True] show ?thesis unfolding z by blast
  next
    case False
    with r(2) that have "m = n" "\<exists>a \<in> set aliases. ?hit s a" by (auto split: if_splits)
    then show ?thesis unfolding z by blast
  qed
  have 4: "in_bucket cl' ''nongrouped'' m"
    if p: "(s', m) \<in> set (zip (L @ [s]) (R @ [n]))"
      and nohit: "\<forall>a \<in> set aliases. \<not> ?hit s' a" and nz: "m \<notin> cz'" for s' m
  proof -
    from r(2) nz have nz0: "m \<notin> cz" by (auto split: if_splits)
    from p z have "(s', m) \<in> set (zip L R) \<or> (s' = s \<and> m = n)" by auto
    then show ?thesis
    proof
      assume "(s', m) \<in> set (zip L R)"
      from ng [OF this nohit nz0] r(1) show ?thesis by blast
    next
      assume e: "s' = s \<and> m = n"
      with nohit nz0 have "\<not> (\<exists>a \<in> set aliases. ?hit s a)" "n \<notin> cz" by auto
      with r(1) e show ?thesis by blast
    qed
  qed
  show ?thesis unfolding placement_inv_def
  proof (intro conjI allI impI ballI)
    show "length (R @ [n]) = length (L @ [s])" by (rule 1)
  next
    fix name m assume "in_bucket cl' name m"
    then show "\<exists>s'. (s', m) \<in> set (zip (L @ [s]) (R @ [n]))
               \<and> ((\<exists>a \<in> set aliases. ?hit s' a \<and> name = escape_special_chars a)
                    \<or> (name = ''nongrouped'' \<and> (\<forall>a \<in> set aliases. \<not> ?hit s' a)))"
      by (rule 2)
  next
    fix m assume "m \<in> cz'"
    then show "\<exists>s'. (s', m) \<in> set (zip (L @ [s]) (R @ [n])) \<and> (\<exists>a \<in> set aliases. ?hit s' a)"
      by (rule 3)
  next
    fix s' m
    assume "(s', m) \<in> set (zip (L @ [s]) (R @ [n]))
               \<and> (\<forall>a \<in> set aliases. \<not> ?hit s' a) \<and> m \<notin> cz'"
    then show "in_bucket cl' ''nongrouped'' m" using 4 by blast
  qed
qed

lemma placement_inv_step:
  assumes inv: "placement_inv (map fst d2c) L (returned_numbers (resolved st))
                  (clusters st) (clusterized_nodes st)"
    and d2c: "domains_to_clusters (creator st) = Some d2c"
    and run: "body_step lib cfg st conn = Inr st'"
  shows "placement_inv (map fst d2c) (L @ formatted_labels lib cfg [conn])
           (returned_numbers (resolved st')) (clusters st') (clusterized_nodes st')"
proof -
  obtain src tgt author origin where conn: "conn = (src, tgt, author, origin)"
    by (cases conn) auto
  let ?s1 = "format_link_for_display lib cfg (fst src)"
  let ?s2 = "format_link_for_display lib cfg (fst tgt)"
  from run [unfolded conn] obtain n1 n2 col d2c' where
    d: "domains_to_clusters (creator st') = Some d2c'"
    and r: "resolved st' = resolved st @ [(n1, n2, col)]"
    and c: "(clusters st', clusterized_nodes st')
           = map_to_clusters (map fst d2c') ?s2 n2
               (map_to_clusters (map fst d2c') ?s1 n1 (clusters st, clusterized_nodes st))"
    by (rule body_step_Inr)
  from body_step_config(2) [OF run] d d2c have same: "d2c' = d2c" by simp
  obtain c1 z1 where first: "map_to_clusters (map fst d2c) ?s1 n1
      (clusters st, clusterized_nodes st) = (c1, z1)"
    by (cases "map_to_clusters (map fst d2c) ?s1 n1 (clusters st, clusterized_nodes st)") auto
  from c same first
  have second: "map_to_clusters (map fst d2c) ?s2 n2 (c1, z1) = (clusters st', clusterized_nodes st')"
    by simp
  have labels: "L @ formatted_labels lib cfg [conn] = (L @ [?s1]) @ [?s2]"
    by (simp add: conn formatted_labels_def)
  have nums: "returned_numbers (resolved st') = (returned_numbers (resolved st) @ [n1]) @ [n2]"
    using r by (simp add: returned_numbers_def)
  from placement_inv_endpoint [OF placement_inv_endpoint [OF inv first] second]
  show ?thesis unfolding labels nums .
qed

lemma placement_inv_fold:
  assumes "fold_err (body_step lib cfg) cs st = Inr st'"
    and "placement_inv (map fst d2c) L (returned_numbers (resolved st))
           (clusters st) (clusterized_nodes st)"
    and "domains_to_clusters (creator st) = Some d2c"
  shows "placement_inv (map fst d2c) (L @ formatted_labels lib cfg cs)
           (returned_numbers (resolved st')) (clusters st') (clusterized_nodes st')"
  using assms
proof (induction cs arbitrary: st L)
  case Nil
  then show ?case by (simp add: formatted_labels_def)
next
  case (Cons c cs)
  from Cons.prems(1) obtain s1 where
    s1: "body_step lib cfg st c = Inr s1" "fold_err (body_step lib cfg) cs s1 = Inr st'"
    by (auto split: sum.splits)
  note step = placement_inv_step [OF Cons.prems(2,3) s1(1)]
  from body_step_config(2) [OF s1(1)] Cons.prems(3)
  have d: "domains_to_clusters (creator s1) = Some d2c" by simp
  have app: "L @ formatted_labels lib cfg (c # cs)
      = (L @ formatted_labels lib cfg [c]) @ formatted_labels lib cfg cs"
    by (simp add: formatted_labels_Cons [of lib cfg c cs])
  from Cons.IH [OF s1(2) step d] show ?case unfolding app .
qed

lemma make_graph_body_placement:
  assumes run: "make_graph_body lib cfg gc = Inr st"
    and d2c: "domains_to_clusters gc = Some d2c"
  shows "placement_inv (map fst d2c) (formatted_labels lib cfg (connections gc))
           (returned_numbers (resolved st)) (clusters st) (clusterized_nodes st)"
proof -
  let ?init = "\<lparr>creator = gc, node_map = [], url_map = [], resolved = [], clusters = [],
        clusterized_nodes = {}\<rparr>"
  have f: "fold_err (body_step lib cfg) (connections gc) ?init = Inr st"
    using run by (simp add: make_graph_body_def)
  have i: "placement_inv (map fst d2c) [] (returned_numbers (resolved ?init))
             (clusters ?init) (clusterized_nodes ?init)"
    by (simp add: placement_inv_def returned_numbers_def in_bucket_def)
  have d: "domains_to_clusters (creator ?init) = Some d2c" using d2c by simp
  from placement_inv_fold [OF f i d] show ?thesis by simp
qed

lemma zip_index:
  "(s, m) \<in> set (zip L R) \<Longrightarrow> length R = length L \<Longrightarrow> \<exists>i<length L. L ! i = s \<and> R ! i = m"
  by (auto simp: in_set_zip)

lemma exact_placement:
  assumes inv: "placement_inv aliases L R cl cz"
  shows "\<forall>name n. in_bucket cl name n \<longrightarrow>
           (\<exists>i<length L. R ! i = n
              \<and> ((\<exists>a \<in> set aliases. str_in a (replace_str [CHR 0x0A] [] (lower (L ! i)))
                                     \<and> name = escape_special_chars a)
                  \<or> (name = ''nongrouped''
                      \<and> (\<forall>a \<in> set aliases.
                             \<not> str_in a (replace_str [CHR 0x0A] [] (lower (L ! i)))))))"
    and "\<forall>i<length L.
           (\<forall>j<length L. R ! j = R ! i
                \<longrightarrow> (\<forall>a \<in> set aliases. \<not> str_in a (replace_str [CHR 0x0A] [] (lower (L ! j)))))
           \<longrightarrow> in_bucket cl ''nongrouped'' (R ! i)"
proof -
  let ?hit = "\<lambda>s a. str_in a (replace_str [CHR 0x0A] [] (lower s))"
  from inv have len: "length R = length L"
    and up: "\<And>name m. in_bucket cl name m \<Longrightarrow>
            (\<exists>s. (s, m) \<in> set (zip L R)
               \<and> ((\<exists>a \<in> set aliases. ?hit s a \<and> name = escape_special_chars a)
                    \<or> (name = ''nongrouped'' \<and> (\<forall>a \<in> set aliases. \<not> ?hit s a))))"
    and cz: "\<And>m. m \<in> cz \<Longrightarrow> \<exists>s. (s, m) \<in> set (zip L R) \<and> (\<exists>a \<in> set aliases. ?hit s a)"
    and ng: "\<And>s m. (s, m) \<in> set (zip L R) \<Longrightarrow> \<forall>a \<in> set aliases. \<not> ?hit s a \<Longrightarrow> m \<notin> cz
               \<Longrightarrow> in_bucket cl ''nongrouped'' m"
    unfolding placement_inv_def by blast+
  show "\<forall>name n. in_bucket cl name n \<longrightarrow>
           (\<exists>i<length L. R ! i = n
              \<and> ((\<exists>a \<in> set aliases. ?hit (L ! i) a \<and> name = escape_special_chars a)
                  \<or> (name = ''nongrouped'' \<and> (\<forall>a \<in> set aliases. \<not> ?hit (L ! i) a))))"
  proof (intro allI impI)
    fix name n assume "in_bucket cl name n"
    from up [OF this] obtain s where s: "(s, n) \<in> set (zip L R)"
      and k: "(\<exists>a \<in> set aliases. ?hit s a \<and> name = escape_special_chars a)
                \<or> (name = ''nongrouped'' \<and> (\<forall>a \<in> set aliases. \<not> ?hit s a))"
      by blast
    from zip_index [OF s len] obtain i where "i < length L" "L ! i = s" "R ! i = n" by blast
    with k show "\<exists>i<length L. R ! i = n
              \<and> ((\<exists>a \<in> set aliases. ?hit (L ! i) a \<and> name = escape_special_chars a)
                  \<or> (name = ''nongrouped'' \<and> (\<forall>a \<in> set aliases. \<not> ?hit (L ! i) a)))"
      by blast
  qed
  show "\<forall>i<length L.
           (\<forall>j<length L. R ! j = R ! i \<longrightarrow> (\<forall>a \<in> set aliases. \<not> ?hit (L ! j) a))
           \<longrightarrow> in_bucket cl ''nongrouped'' (R ! i)"
  proof (intro allI impI)
    fix i assume i: "i < length L"
      and none: "\<forall>j<length L. R ! j = R ! i \<longrightarrow> (\<forall>a \<in> set aliases. \<not> ?hit (L ! j) a)"
    from i len have p: "(L ! i, R ! i) \<in> set (zip L R)" by (auto simp: in_set_zip)
    from none i have nohit: "\<forall>a \<in> set aliases. \<not> ?hit (L ! i) a" by blast
    have nz: "R ! i \<notin> cz"
    proof
      assume "R ! i \<in> cz"
      from cz [OF this] obtain s a where s: "(s, R ! i) \<in> set (zip L R)"
        and a: "a \<in> set aliases" "?hit s a"
        by blast
      from zip_index [OF s len] obtain j where "j < length L" "L ! j = s" "R ! j = R ! i" by blast
      with none a show False by blast
    qed
    from ng [OF p nohit nz] show "in_bucket cl ''nongrouped'' (R ! i)" .
  qed
qed

text \<open>
  Claim C6, as amended. After a run of \<^verbatim>\<open>_make_graph_body\<close>, every node that an edge
  refers to is in at least one bucket, and the buckets are exactly these: a node is in
  the bucket named after each alias that one of its labels contains (one bucket per
  matching alias, so possibly several), and a node none of whose labels contains an alias
  is in the ungrouped bucket; conversely every member of a bucket is the number of a label
  that contains an alias with that bucket's name, or, in the ungrouped bucket, of a label
  that contains no alias. The bucket names are distinct. After
  \<^verbatim>\<open>reorder_nodes_by_clusters\<close> (for an enumeration of sets without repetition) every
  bucket lists the same members, each once.
\<close>

theorem cluster_completeness:
  assumes run: "make_graph_body lib cfg gc = Inr st"
    and d2c: "domains_to_clusters gc = Some d2c"
    and labels: "labels = formatted_labels lib cfg (connections gc)"
    and ids: "ids = returned_numbers (resolved st)"
  shows "length ids = length labels
       \<and> (\<forall>i<length labels.
             in_bucket (clusters st) ''nongrouped'' (ids ! i)
             \<or> (\<exists>a \<in> set (map fst d2c). in_bucket (clusters st) (escape_special_chars a) (ids ! i)))
       \<and> (\<forall>i<length labels. \<forall>a \<in> set (map fst d2c).
             str_in a (replace_str [CHR 0x0A] [] (lower (labels ! i)))
               \<longrightarrow> in_bucket (clusters st) (escape_special_chars a) (ids ! i))
       \<and> (\<forall>i<length labels.
             (\<forall>j<length labels. ids ! j = ids ! i
                \<longrightarrow> (\<forall>a \<in> set (map fst d2c).
                       \<not> str_in a (replace_str [CHR 0x0A] [] (lower (labels ! j)))))
             \<longrightarrow> in_bucket (clusters st) ''nongrouped'' (ids ! i))
       \<and> (\<forall>name n. in_bucket (clusters st) name n \<longrightarrow>
             (\<exists>i<length labels. ids ! i = n
                \<and> ((\<exists>a \<in> set (map fst d2c).
                        str_in a (replace_str [CHR 0x0A] [] (lower (labels ! i)))
                        \<and> name = escape_special_chars a)
                    \<or> (name = ''nongrouped''
                        \<and> (\<forall>a \<in> set (map fst d2c).
                               \<not> str_in a (replace_str [CHR 0x0A] [] (lower (labels ! i))))))))
       \<and> (\<forall>name n. in_bucket (clusters st) name n \<longrightarrow> n \<in> set ids)
       \<and> distinct (map fst (clusters st))
       \<and> (\<forall>conn_num ordered cl'.
             (\<forall>(name, ns) \<in> set (clusters st).
                 distinct (set_list lib ns) \<and> set (set_list lib ns) = set ns)
             \<and> reorder_nodes_by_clusters lib (clusters st) conn_num = Inr (ordered, cl')
             \<longrightarrow> map fst cl' = map fst (clusters st)
                 \<and> (\<forall>(name, ns) \<in> set cl'.
                       distinct ns \<and> (\<forall>n. (n \<in> set ns) = in_bucket (clusters st) name n)))"
proof -
  from make_graph_body_buckets [OF run d2c]
  have inv: "bucket_inv (map fst d2c) labels ids (clusters st) (clusterized_nodes st)"
    by (simp add: labels ids)
  then have len: "length ids = length labels"
    and al: "\<forall>(s, n) \<in> set (zip labels ids). \<forall>a \<in> set (map fst d2c).
            str_in a (replace_str [CHR 0x0A] [] (lower s))
              \<longrightarrow> in_bucket (clusters st) (escape_special_chars a) n"
    and ng: "\<forall>n \<in> set ids. in_bucket (clusters st) ''nongrouped'' n \<or> n \<in> clusterized_nodes st"
    and cz: "\<forall>m \<in> clusterized_nodes st.
               \<exists>a \<in> set (map fst d2c). in_bucket (clusters st) (escape_special_chars a) m"
    and ref: "\<forall>name m. in_bucket (clusters st) name m \<longrightarrow> m \<in> set ids"
    and dk: "distinct (map fst (clusters st))"
    by (simp_all add: bucket_inv_def)
  from make_graph_body_placement [OF run d2c]
  have pinv: "placement_inv (map fst d2c) labels ids (clusters st) (clusterized_nodes st)"
    by (simp add: labels ids)
  note exact = exact_placement [OF pinv]
  have some: "\<forall>i<length labels. in_bucket (clusters st) ''nongrouped'' (ids ! i)
             \<or> (\<exists>a \<in> set (map fst d2c). in_bucket (clusters st) (escape_special_chars a) (ids ! i))"
  proof (intro allI impI)
    fix i assume "i < length labels"
    with len have "ids ! i \<in> set ids" by simp
    with ng have "in_bucket (clusters st) ''nongrouped'' (ids ! i) \<or> ids ! i \<in> clusterized_nodes st"
      by blast
    with cz show "in_bucket (clusters st) ''nongrouped'' (ids ! i)
             \<or> (\<exists>a \<in> set (map fst d2c). in_bucket (clusters st) (escape_special_chars a) (ids ! i))"
      by blast
  qed
  have matched: "\<forall>i<length labels. \<forall>a \<in> set (map fst d2c).
             str_in a (replace_str [CHR 0x0A] [] (lower (labels ! i)))
               \<longrightarrow> in_bucket (clusters st) (escape_special_chars a) (ids ! i)"
  proof (intro allI impI ballI)
    fix i a assume i: "i < length labels" and a: "a \<in> set (map fst d2c)"
      and h: "str_in a (replace_str [CHR 0x0A] [] (lower (labels ! i)))"
    from i len have "(labels ! i, ids ! i) \<in> set (zip labels ids)"
      by (auto simp: set_zip)
    with al a h show "in_bucket (clusters st) (escape_special_chars a) (ids ! i)" by blast
  qed
  have dedup: "\<forall>conn_num ordered cl'.
             (\<forall>(name, ns) \<in> set (clusters st).
                 distinct (set_list lib ns) \<and> set (set_list lib ns) = set ns)
             \<and> reorder_nodes_by_clusters lib (clusters st) conn_num = Inr (ordered, cl')
             \<longrightarrow> map fst cl' = map fst (clusters st)
                 \<and> (\<forall>(name, ns) \<in> set cl'.
                       distinct ns \<and> (\<forall>n. (n \<in> set ns) = in_bucket (clusters st) name n))"
  proof (intro allI impI, elim conjE)
    fix conn_num ordered cl'
    assume e: "\<forall>(name, ns) \<in> set (clusters st).
                 distinct (set_list lib ns) \<and> set (set_list lib ns) = set ns"
      and r: "reorder_nodes_by_clusters lib (clusters st) conn_num = Inr (ordered, cl')"
    from reorder_deduplicates [OF dk e r]
    show "map fst cl' = map fst (clusters st)
                 \<and> (\<forall>(name, ns) \<in> set cl'.
                       distinct ns \<and> (\<forall>n. (n \<in> set ns) = in_bucket (clusters st) name n))"
      by simp
  qed
  from len some matched exact(2) exact(1) ref dk dedup show ?thesis
    by (intro conjI)
qed

theorem cluster_completeness_witness:
  "\<exists>st. make_graph_body example_library script_settings
          ((init_creator 2 (Some (WEBSITES_TO_CLUSTERS script_settings)) (Some ''youtube''))
             \<lparr>connections :=
                [((''page'', None), (''youtube.com/a'', Some ''youtube.com''), None, Some ''p''),
                 ((''page'', None), (''x.org/a'', Some ''x.org''), None, Some ''p'')]\<rparr>) = Inr st
        \<and> returned_numbers (resolved st) = [1, 2, 1, 4]
        \<and> clusters st = [(''nongrouped'', [1, 1, 4]), (''youtube'', [2])]
        \<and> in_bucket (clusters st) (escape_special_chars ''youtube'') (returned_numbers (resolved st) ! 1)
        \<and> distinct (map fst (clusters st))"
proof -
  let ?gc = "(init_creator 2 (Some (WEBSITES_TO_CLUSTERS script_settings)) (Some ''youtube''))
             \<lparr>connections :=
                [((''page'', None), (''youtube.com/a'', Some ''youtube.com''), None, Some ''p''),
                 ((''page'', None), (''x.org/a'', Some ''x.org''), None, Some ''p'')]\<rparr>"
  let ?labels = "[''page'', ''youtube.com/a'', ''page'', ''x.org/a'']"
  let ?d2c = "prepare_cluster_map (WEBSITES_TO_CLUSTERS script_settings)"
  have "case make_graph_body example_library script_settings ?gc of
          Inl e \<Rightarrow> False
        | Inr st \<Rightarrow> returned_numbers (resolved st) = [1, 2, 1, 4]
                    \<and> clusters st = [(''nongrouped'', [1, 1, 4]), (''youtube'', [2])]"
    by code_simp
  then obtain st where run: "make_graph_body example_library script_settings ?gc = Inr st"
    and res: "returned_numbers (resolved st) = [1, 2, 1, 4]"
    and cl: "clusters st = [(''nongrouped'', [1, 1, 4]), (''youtube'', [2])]"
    by (cases "make_graph_body example_library script_settings ?gc") auto
  have ne: "WEBSITES_TO_CLUSTERS script_settings \<noteq> []" by (simp add: script_settings_def)
  have d2c: "domains_to_clusters ?gc = Some ?d2c"
    using init_creator_configured [OF ne] by simp
  have labels: "?labels = formatted_labels example_library script_settings (connections ?gc)"
    by (simp add: formatted_labels_def format_link_for_display_def example_library_def)
  note inst = cluster_completeness [OF run d2c labels refl]
  have al_mem: "''youtube'' \<in> set (map fst ?d2c)" by code_simp
  have hit: "str_in ''youtube'' (replace_str [CHR 0x0A] [] (lower (?labels ! 1)))" by code_simp
  have "in_bucket (clusters st) (escape_special_chars ''youtube'') (returned_numbers (resolved st) ! 1)"
    using inst [THEN conjunct2, THEN conjunct2, THEN conjunct1, rule_format, of 1 "''youtube''"]
      al_mem hit
    by simp
  moreover have "distinct (map fst (clusters st))"
    by (rule inst [THEN conjunct2, THEN conjunct2, THEN conjunct2, THEN conjunct2, THEN conjunct2,
          THEN conjunct2, THEN conjunct1])
  ultimately show ?thesis using run res cl by blast
qed

text \<open>
  Claim C6 as stated fails: a node can be registered in more than one bucket. The label
  \<^verbatim>\<open>youtube.com/gmoanswers\<close> contains the aliases \<^verbatim>\<open>youtube\<close> and \<^verbatim>\<open>gmoanswers\<close> of the
  script's cluster table; its node 2 is put into both buckets and occurs twice in the
  ordered node list.
\<close>

theorem node_in_two_buckets:
  "case make_graph_body example_library script_settings
          ((init_creator 2 (Some (WEBSITES_TO_CLUSTERS script_settings)) (Some ''youtube''))
             \<lparr>connections :=
                [((''page'', None),
                  (''youtube.com/gmoanswers'', Some ''youtube.com''), None, Some ''p'')]\<rparr>) of
     Inl e \<Rightarrow> False
   | Inr st \<Rightarrow>
       resolved st = [(1, 2, [])]
       \<and> clusters st = [(''nongrouped'', [1]), (''youtube'', [2]), (''gmoanswers'', [2])]
       \<and> reorder_nodes_by_clusters example_library (clusters st)
             (inbound_counts (node_map st) (resolved st))
           = Inr ([(1, ''nongrouped''), (2, ''youtube''), (2, ''gmoanswers'')],
                  [(''nongrouped'', [1]), (''youtube'', [2]), (''gmoanswers'', [2])])"
  by code_simp

end
